theory Spec2Isabelle
  imports
    Main
    "HOL-Library.Char_ord"
    "HOL-Library.List_Lexorder"
    "HOL-Library.Product_Lexorder"
    "HOL-Library.Word"
begin

section \<open>The shelf-tag extraction pipeline (extract_shelf_tags.py)\<close>

text \<open>
  A shallow embedding of \<^verbatim>\<open>src/shelf_tag_test/extract_shelf_tags.py\<close>.

  Python strings are \<open>string\<close>: lists of characters with code points 0..255, compared
  by code point (\<open>Char_ord\<close>) and lexicographically (\<open>List_Lexorder\<close>), as Python
  compares \<^verbatim>\<open>str\<close>; tuples compare lexicographically (\<open>Product_Lexorder\<close>).
  Python integers are \<open>int\<close>. Byte strings are lists of 8-bit words.

  What the script reaches outside itself is made explicit:
  \<^item> the library calls that stand between the script and its data (\<^verbatim>\<open>json.loads\<close>,
    \<^verbatim>\<open>urllib.request.urlopen\<close>, \<^verbatim>\<open>zipfile.ZipFile\<close>) and between the script and the
    file system (\<^verbatim>\<open>open\<close>, \<^verbatim>\<open>write\<close> and the closing of the output files) are the
    fields of an environment record, each with the exceptions it may raise;
  \<^item> everything the script does to the outside (HTTP requests, \<^verbatim>\<open>time.sleep\<close>, logging
    calls, image files written, lines appended to the metadata file) is recorded, in
    order, in a \<open>world\<close> record that every function takes and returns;
  \<^item> an exception that leaves a function is the \<open>Inl\<close> branch of its result.

  Outside the model: characters above code point 255 (a text that UTF-8 cannot encode
  shows only as a failing append), a CSV line longer than the header (\<^verbatim>\<open>DictReader\<close>
  then stores a list under the key \<^verbatim>\<open>None\<close>), and the interpreter's limit on the length
  of a decimal string given to \<^verbatim>\<open>int\<close>.
\<close>

subsection \<open>Python values\<close>

type_synonym bytes = "8 word list"

text \<open>
  The values \<^verbatim>\<open>json.loads\<close> returns: \<^verbatim>\<open>None\<close>, \<^verbatim>\<open>bool\<close>, \<^verbatim>\<open>int\<close>, \<^verbatim>\<open>float\<close>,
  \<^verbatim>\<open>str\<close>, \<^verbatim>\<open>list\<close> and \<^verbatim>\<open>dict\<close> (keys are strings, kept in insertion order).
  A float is carried by the text \<^verbatim>\<open>str()\<close> prints for it; that text is \<^verbatim>\<open>0.0\<close> or
  \<^verbatim>\<open>-0.0\<close> exactly for the two floats that are false in a boolean context.
\<close>

datatype json =
    JNull
  | JBool bool
  | JNum int
  | JFloat string
  | JStr string
  | JList "json list"
  | JObj "(string \<times> json) list"

datatype error =
    AttributeError      \<comment> \<open>\<^verbatim>\<open>.get\<close> or \<^verbatim>\<open>.strip\<close> on a value that has no such method\<close>
  | BadZipFile          \<comment> \<open>raised by \<^verbatim>\<open>zipfile.ZipFile\<close>\<close>
  | UncaughtFetchError  \<comment> \<open>raised by \<^verbatim>\<open>urlopen\<close>, not one of the three caught classes\<close>
  | UncaughtLoadsError  \<comment> \<open>raised by \<^verbatim>\<open>json.loads\<close>, not \<^verbatim>\<open>JSONDecodeError\<close>\<close>
  | OSError             \<comment> \<open>raised by \<^verbatim>\<open>open\<close>, by \<^verbatim>\<open>img_fp.write\<close> or by closing a file\<close>
  | MetaWriteError      \<comment> \<open>raised by \<^verbatim>\<open>meta_fp.write\<close>: \<^verbatim>\<open>UnicodeEncodeError\<close> or \<^verbatim>\<open>OSError\<close>\<close>

text \<open>Truth value of a Python object, as \<^verbatim>\<open>or\<close> and \<^verbatim>\<open>not\<close> test it.\<close>

fun truthy :: "json \<Rightarrow> bool" where
  "truthy JNull = False"
| "truthy (JBool b) = b"
| "truthy (JNum n) = (n \<noteq> 0)"
| "truthy (JFloat s) = (s \<noteq> ''0.0'' \<and> s \<noteq> ''-0.0'')"
| "truthy (JStr s) = (s \<noteq> [])"
| "truthy (JList xs) = (xs \<noteq> [])"
| "truthy (JObj kvs) = (kvs \<noteq> [])"

text \<open>\<^verbatim>\<open>x or d\<close>\<close>

definition py_or :: "json \<Rightarrow> json \<Rightarrow> json" where
  "py_or x d = (if truthy x then x else d)"

text \<open>\<^verbatim>\<open>d.get(k)\<close> on a dict: \<^verbatim>\<open>None\<close> when the key is missing.\<close>

definition dict_get :: "(string \<times> json) list \<Rightarrow> string \<Rightarrow> json" where
  "dict_get d k = (case map_of d k of None \<Rightarrow> JNull | Some v \<Rightarrow> v)"

text \<open>
  \<^verbatim>\<open>d[k] = v\<close> on a dict kept as an association list in insertion order: an existing
  key keeps its place and takes the new value, a new key goes to the end.
\<close>

fun dict_set :: "('k \<times> 'v) list \<Rightarrow> 'k \<Rightarrow> 'v \<Rightarrow> ('k \<times> 'v) list" where
  "dict_set [] k v = [(k, v)]"
| "dict_set ((k', v') # d) k v =
     (if k' = k then (k, v) # d else (k', v') # dict_set d k v)"

subsection \<open>Characters, \<^verbatim>\<open>str.strip\<close>, \<^verbatim>\<open>int\<close> and \<^verbatim>\<open>str\<close>\<close>

text \<open>
  The whitespace of \<^verbatim>\<open>str.strip()\<close> and of \<^verbatim>\<open>\s\<close> below code point 256:
  9..13, 28..32, 133 and 160. The decimal digits of \<^verbatim>\<open>\d\<close> there: \<^verbatim>\<open>0\<close>..\<^verbatim>\<open>9\<close>.
\<close>

definition is_space :: "char \<Rightarrow> bool" where
  "is_space c =
     (let n = (of_char c :: nat)
      in (9 \<le> n \<and> n \<le> 13) \<or> (28 \<le> n \<and> n \<le> 32) \<or> n = 133 \<or> n = 160)"

definition is_digit :: "char \<Rightarrow> bool" where
  "is_digit c = (let n = (of_char c :: nat) in 48 \<le> n \<and> n \<le> 57)"

definition strip :: "string \<Rightarrow> string" where
  "strip s = rev (dropWhile is_space (rev (dropWhile is_space s)))"

text \<open>\<^verbatim>\<open>int(s)\<close> on a non-empty string of decimal digits.\<close>

definition digit_val :: "char \<Rightarrow> int" where
  "digit_val c = int (of_char c) - 48"

definition int_of_digits :: "string \<Rightarrow> int" where
  "int_of_digits s = foldl (\<lambda>a c. 10 * a + digit_val c) 0 s"

text \<open>\<^verbatim>\<open>str(n)\<close> on an integer.\<close>

definition digit_char :: "nat \<Rightarrow> char" where
  "digit_char d = char_of (48 + d)"

fun str_of_nat :: "nat \<Rightarrow> string" where
  "str_of_nat n =
     (if n < 10 then [digit_char n] else str_of_nat (n div 10) @ [digit_char (n mod 10)])"

declare str_of_nat.simps [simp del]

definition str_of_int :: "int \<Rightarrow> string" where
  "str_of_int i = (if i < 0 then CHR ''-'' # str_of_nat (nat (- i)) else str_of_nat (nat i))"

text \<open>
  \<^verbatim>\<open>repr(s)\<close> on a string: double quotes when the string has a single quote and no
  double quote, single quotes otherwise; the quote, the backslash, tab, newline and
  carriage return are escaped, every other unprintable character (0..31, 127..160,
  173) is written \<^verbatim>\<open>\xhh\<close>.
\<close>

definition hex_digit :: "nat \<Rightarrow> char" where
  "hex_digit d = (if d < 10 then char_of (48 + d) else char_of (87 + d))"

definition repr_char :: "char \<Rightarrow> char \<Rightarrow> string" where
  "repr_char q c =
     (let n = (of_char c :: nat)
      in if c = q \<or> n = 92 then [CHR 0x5C, c]
         else if n = 9 then [CHR 0x5C, CHR ''t'']
         else if n = 10 then [CHR 0x5C, CHR ''n'']
         else if n = 13 then [CHR 0x5C, CHR ''r'']
         else if n < 32 \<or> (127 \<le> n \<and> n \<le> 160) \<or> n = 173
           then [CHR 0x5C, CHR ''x'', hex_digit (n div 16), hex_digit (n mod 16)]
         else [c])"

definition repr_str :: "string \<Rightarrow> string" where
  "repr_str s =
     (let q = (if CHR 0x27 \<in> set s \<and> CHR 0x22 \<notin> set s then CHR 0x22 else CHR 0x27)
      in q # concat (map (repr_char q) s) @ [q])"

text \<open>\<^verbatim>\<open>', '.join(xs)\<close>\<close>

fun join_comma :: "string list \<Rightarrow> string" where
  "join_comma [] = []"
| "join_comma [x] = x"
| "join_comma (x # y # ys) = x @ '', '' @ join_comma (y # ys)"

text \<open>\<^verbatim>\<open>repr(x)\<close> and \<^verbatim>\<open>str(x)\<close>; they differ on strings only.\<close>

fun py_repr :: "json \<Rightarrow> string" where
  "py_repr JNull = ''None''"
| "py_repr (JBool b) = (if b then ''True'' else ''False'')"
| "py_repr (JNum n) = str_of_int n"
| "py_repr (JFloat s) = s"
| "py_repr (JStr s) = repr_str s"
| "py_repr (JList xs) = ''['' @ join_comma (map py_repr xs) @ '']''"
| "py_repr (JObj kvs) =
     ''{'' @ join_comma (map (\<lambda>kv. repr_str (fst kv) @ '': '' @ py_repr (snd kv)) kvs) @ ''}''"

definition py_str :: "json \<Rightarrow> string" where
  "py_str x = (case x of JStr s \<Rightarrow> s | _ \<Rightarrow> py_repr x)"

subsection \<open>The outside world\<close>

datatype loads_result =
    Decoded json      \<comment> \<open>the value \<^verbatim>\<open>json.loads\<close> returned\<close>
  | JSONDecodeError   \<comment> \<open>the text is no JSON document\<close>
  | LoadsRaised       \<comment> \<open>any other exception (nesting too deep, a number too long)\<close>

datatype response =
    Body bytes      \<comment> \<open>\<^verbatim>\<open>resp.read()\<close> returned these bytes\<close>
  | Failed string   \<comment> \<open>\<^verbatim>\<open>HTTPError\<close>, \<^verbatim>\<open>URLError\<close> or \<^verbatim>\<open>TimeoutError\<close>, with its text\<close>
  | Raised          \<comment> \<open>any other exception: \<^verbatim>\<open>RemoteDisconnected\<close>, \<^verbatim>\<open>IncompleteRead\<close>, ...\<close>

datatype write_result =
    Written         \<comment> \<open>the file holds the bytes\<close>
  | NotCreated      \<comment> \<open>\<^verbatim>\<open>open\<close> raised\<close>
  | Partial bytes   \<comment> \<open>the write raised and left these bytes in the file\<close>

datatype level = INFO | WARNING | ERROR

datatype message =
    JsonParseFailed nat              \<comment> \<open>length of the text\<close>
  | DownloadFailed int int string string  \<comment> \<open>attempt, max_retries, url, error\<close>
  | GivingUp string string           \<comment> \<open>url, last error\<close>
  | SkipNoUrl string                 \<comment> \<open>zip_url_field\<close>
  | SkipInvalidJson string           \<comment> \<open>json_field\<close>
  | NoData string                    \<comment> \<open>zip_url\<close>
  | ZipNoEntries string              \<comment> \<open>zip_url\<close>
  | MissingInZip string              \<comment> \<open>filename\<close>
  | NoRows
  | Loaded nat
  | RowError nat error               \<comment> \<open>row index, exception\<close>
  | Done int                         \<comment> \<open>final image counter\<close>

record world =
  requests :: nat                         \<comment> \<open>HTTP requests made so far\<close>
  slept :: "int list"                     \<comment> \<open>arguments of \<^verbatim>\<open>time.sleep\<close>, in order\<close>
  logged :: "(level \<times> message) list"      \<comment> \<open>logging calls, in order\<close>
  written :: "(string \<times> bytes) list"      \<comment> \<open>files written: path and content, in order\<close>
  appended :: "(string \<times> string) list"    \<comment> \<open>text appended: path and text, in order\<close>

text \<open>
  A text counts as appended once \<^verbatim>\<open>meta_fp.write\<close> has returned; it is in the file when the
  file has been closed without an error.
\<close>

text \<open>
  The environment. What a file operation does may depend on everything that happened
  before, so those fields take the world.
\<close>

record env =
  json_loads :: "string \<Rightarrow> loads_result"
    \<comment> \<open>\<^verbatim>\<open>json.loads\<close>\<close>
  urlopen :: "nat \<Rightarrow> string \<Rightarrow> response"
    \<comment> \<open>the outcome of the request for a URL, given how many requests were made before\<close>
  zip_members :: "bytes \<Rightarrow> (string \<times> bytes) list option"
    \<comment> \<open>member names and contents in \<^verbatim>\<open>infolist()\<close> order; \<open>None\<close> is \<^verbatim>\<open>BadZipFile\<close>\<close>
  open_append :: "world \<Rightarrow> string \<Rightarrow> bool"
    \<comment> \<open>\<^verbatim>\<open>open(path, 'a')\<close> succeeds\<close>
  write_file :: "world \<Rightarrow> string \<Rightarrow> bytes \<Rightarrow> write_result"
    \<comment> \<open>\<^verbatim>\<open>open(path, 'wb')\<close> and the write of the bytes\<close>
  append_text :: "world \<Rightarrow> string \<Rightarrow> string \<Rightarrow> bool"
    \<comment> \<open>\<^verbatim>\<open>meta_fp.write(text)\<close> succeeds\<close>
  close_append :: "world \<Rightarrow> string \<Rightarrow> bool"
    \<comment> \<open>closing the file opened with \<^verbatim>\<open>open(path, 'a')\<close> succeeds\<close>

definition add_log :: "level \<Rightarrow> message \<Rightarrow> world \<Rightarrow> world" where
  "add_log l m w = w\<lparr>logged := logged w @ [(l, m)]\<rparr>"

subsection \<open>Helpers of the script\<close>

text \<open>
  \<^verbatim>\<open>re.search(r"(\d+)(?=\.[^.]+$)", filename)\<close>. The lookahead holds at a position when a
  dot stands there and is followed by one or more characters none of which is a dot, up
  to the end of the string (a final newline that \<^verbatim>\<open>$\<close> may leave unconsumed is itself no
  dot, so \<^verbatim>\<open>[^.]+\<close> can take it). The search tries the start positions from the left;
  at each, the greedy \<^verbatim>\<open>\d+\<close> takes the longest run of digits and gives back one digit
  at a time until the lookahead holds.
\<close>

definition lookahead_ext :: "string \<Rightarrow> bool" where
  "lookahead_ext r =
     (case r of [] \<Rightarrow> False | c # t \<Rightarrow> c = CHR ''.'' \<and> t \<noteq> [] \<and> CHR ''.'' \<notin> set t)"

fun try_lengths :: "string \<Rightarrow> nat \<Rightarrow> string option" where
  "try_lengths s 0 = None"
| "try_lengths s (Suc n) =
     (if lookahead_ext (drop (Suc n) s) then Some (take (Suc n) s) else try_lengths s n)"

definition match_here :: "string \<Rightarrow> string option" where
  "match_here s = try_lengths s (length (takeWhile is_digit s))"

fun re_search_suffix :: "string \<Rightarrow> string option" where
  "re_search_suffix [] = None"
| "re_search_suffix (c # cs) =
     (case match_here (c # cs) of Some g \<Rightarrow> Some g | None \<Rightarrow> re_search_suffix cs)"

definition parse_int_suffix_from_filename :: "string \<Rightarrow> int option" where
  "parse_int_suffix_from_filename filename =
     (case re_search_suffix filename of None \<Rightarrow> None | Some g \<Rightarrow> Some (int_of_digits g))"

text \<open>\<^verbatim>\<open>re.sub(r"\s+", "", name or "")\<close>\<close>

definition normalize_field_name :: "string \<Rightarrow> string" where
  "normalize_field_name name = filter (\<lambda>c. \<not> is_space c) name"

text \<open>
  A CSV row is the dict \<^verbatim>\<open>csv.DictReader\<close> builds: header names in column order, each
  with the cell's text, or \<^verbatim>\<open>None\<close> where the line was too short.
\<close>

type_synonym row = "(string \<times> string option) list"

fun first_normalized :: "row \<Rightarrow> string \<Rightarrow> string option" where
  "first_normalized [] desired_norm = None"
| "first_normalized ((k, v) # rest) desired_norm =
     (if normalize_field_name k = desired_norm then v else first_normalized rest desired_norm)"

definition get_field_value :: "row \<Rightarrow> string \<Rightarrow> string option" where
  "get_field_value row desired_field =
     (case map_of row desired_field of
        Some v \<Rightarrow> v
      | None \<Rightarrow> first_normalized row (normalize_field_name desired_field))"

text \<open>\<^verbatim>\<open>bool(re.fullmatch(r"0+", s))\<close>\<close>

definition is_all_zeros :: "string \<Rightarrow> bool" where
  "is_all_zeros s = (s \<noteq> [] \<and> list_all (\<lambda>c. c = CHR ''0'') s)"

definition safe_json_loads ::
  "env \<Rightarrow> string option \<Rightarrow> world \<Rightarrow> (error + json) \<times> world"
where
  "safe_json_loads env text w =
     (case text of
        None \<Rightarrow> (Inr JNull, w)
      | Some t \<Rightarrow>
          (let t' = strip t
           in if t' = [] then (Inr JNull, w)
              else (case json_loads env t' of
                      Decoded v \<Rightarrow> (Inr v, w)
                    | JSONDecodeError \<Rightarrow>
                        (Inr JNull, add_log WARNING (JsonParseFailed (length t')) w)
                    | LoadsRaised \<Rightarrow> (Inl UncaughtLoadsError, w))))"

text \<open>
  \<^verbatim>\<open>download_bytes\<close>: the loop over \<^verbatim>\<open>range(1, max_retries + 1)\<close>, with \<^verbatim>\<open>last_err\<close>
  carried along. The \<^verbatim>\<open>timeout\<close> argument only reaches \<^verbatim>\<open>urlopen\<close>.
\<close>

fun download_attempts ::
  "env \<Rightarrow> string \<Rightarrow> int \<Rightarrow> int list \<Rightarrow> string option \<Rightarrow> world \<Rightarrow> (error + bytes option) \<times> world"
where
  "download_attempts env url max_retries [] last_err w =
     (Inr None,
      case last_err of None \<Rightarrow> w | Some e \<Rightarrow> add_log ERROR (GivingUp url e) w)"
| "download_attempts env url max_retries (attempt # rest) last_err w =
     (let w1 = w\<lparr>requests := Suc (requests w)\<rparr>
      in case urlopen env (requests w) url of
           Body b \<Rightarrow> (Inr (Some b), w1)
         | Failed e \<Rightarrow>
             download_attempts env url max_retries rest (Some e)
               ((add_log WARNING (DownloadFailed attempt max_retries url e) w1)
                  \<lparr>slept := slept w1 @ [min (2 ^ nat attempt) 10]\<rparr>)
         | Raised \<Rightarrow> (Inl UncaughtFetchError, w1))"

definition download_bytes ::
  "env \<Rightarrow> string \<Rightarrow> int \<Rightarrow> world \<Rightarrow> (error + bytes option) \<times> world"
where
  "download_bytes env url max_retries w =
     download_attempts env url max_retries [1..max_retries] None w"

definition default_max_retries :: int where
  "default_max_retries = 3"

text \<open>\<^verbatim>\<open>os.path.basename\<close> and \<^verbatim>\<open>os.path.join\<close> (POSIX).\<close>

definition basename :: "string \<Rightarrow> string" where
  "basename p = rev (takeWhile (\<lambda>c. c \<noteq> CHR ''/'') (rev p))"

definition path_join :: "string \<Rightarrow> string \<Rightarrow> string" where
  "path_join a b =
     (if take 1 b = ''/'' then b
      else if a = [] \<or> take 1 (rev a) = ''/'' then a @ b
      else a @ ''/'' @ b)"

definition extract_zip_entries :: "env \<Rightarrow> bytes \<Rightarrow> error + (string \<times> bytes) list" where
  "extract_zip_entries env zip_bytes =
     (case zip_members env zip_bytes of
        None \<Rightarrow> Inl BadZipFile
      | Some members \<Rightarrow>
          Inr (foldl (\<lambda>result zi. dict_set result (basename (fst zi)) (snd zi)) [] members))"

subsection \<open>The row processor\<close>

type_synonym meta_dict = "(string \<times> string \<times> string) list"

text \<open>
  One pass of the loop of lines 133 to 147 over a list element: the result is the
  mapping after the pass, or the exception the pass raises.
\<close>

definition meta_step :: "meta_dict \<Rightarrow> json \<Rightarrow> error + meta_dict" where
  "meta_step filename_to_meta obj =
     (case obj of
        JObj d \<Rightarrow>
          (case py_or (dict_get d ''uploaded_image'') (JObj []) of
             JObj uploaded \<Rightarrow>
               (case py_or (dict_get uploaded ''image_filename'') (JStr []) of
                  JStr fn \<Rightarrow>
                    (let filename = strip fn
                     in if filename = [] then Inr filename_to_meta
                        else
                          (let barcode_raw = dict_get d ''barcode'';
                               barcode = strip (if barcode_raw = JNull \<or> barcode_raw = JStr ''null''
                                                then [] else py_str barcode_raw)
                           in if barcode = [] \<or> is_all_zeros barcode then Inr filename_to_meta
                              else
                                (let source_raw = dict_get d ''barcode_detection_source''
                                 in case (if source_raw \<noteq> JNull \<and> source_raw \<noteq> JStr ''null''
                                          then source_raw else JStr []) of
                                      JStr src \<Rightarrow>
                                        Inr (dict_set filename_to_meta filename (barcode, strip src))
                                    | _ \<Rightarrow> Inl AttributeError)))
                | _ \<Rightarrow> Inl AttributeError)
           | _ \<Rightarrow> Inl AttributeError)
      | _ \<Rightarrow> Inr filename_to_meta)"

fun build_filename_to_meta :: "meta_dict \<Rightarrow> json list \<Rightarrow> error + meta_dict" where
  "build_filename_to_meta filename_to_meta [] = Inr filename_to_meta"
| "build_filename_to_meta filename_to_meta (obj # items) =
     (case meta_step filename_to_meta obj of
        Inl e \<Rightarrow> Inl e
      | Inr m \<Rightarrow> build_filename_to_meta m items)"

text \<open>The local function \<^verbatim>\<open>sort_key\<close> and \<^verbatim>\<open>sorted(filename_to_meta.keys(), key=sort_key)\<close>;
  \<^verbatim>\<open>sorted\<close> is stable, as \<^const>\<open>sort_key\<close> is.\<close>

definition sort_key_name :: "string \<Rightarrow> int \<times> string" where
  "sort_key_name name =
     (case parse_int_suffix_from_filename name of
        Some idx \<Rightarrow> (idx, name)
      | None \<Rightarrow> (10 ^ 9, name))"

definition sorted_filenames :: "meta_dict \<Rightarrow> string list" where
  "sorted_filenames filename_to_meta = sort_key sort_key_name (map fst filename_to_meta)"

text \<open>
  The loop of lines 158 to 170, inside the \<^verbatim>\<open>with\<close> block of line 157. The image is
  written before its metadata line; a write that raises ends the loop, and what was
  written before stays. Leaving the \<^verbatim>\<open>with\<close> block closes the metadata file, also when
  the loop raised, and an error of the close is then the exception of the function.
\<close>

fun save_images ::
  "env \<Rightarrow> string \<Rightarrow> string \<Rightarrow> (string \<times> bytes) list \<Rightarrow> meta_dict \<Rightarrow> string list \<Rightarrow> int
     \<Rightarrow> world \<Rightarrow> (error + int) \<times> world"
where
  "save_images env output_dir metadata_file_path zip_entries filename_to_meta [] counter w =
     (if close_append env w metadata_file_path then (Inr counter, w) else (Inl OSError, w))"
| "save_images env output_dir metadata_file_path zip_entries filename_to_meta (filename # rest)
       counter w =
     (case map_of zip_entries filename of
        None \<Rightarrow>
          save_images env output_dir metadata_file_path zip_entries filename_to_meta rest counter
            (add_log WARNING (MissingInZip filename) w)
      | Some image_bytes \<Rightarrow>
          (let (barcode, source) =
                 (case map_of filename_to_meta filename of None \<Rightarrow> ([], []) | Some bs \<Rightarrow> bs);
               counter' = counter + 1;
               new_name = str_of_int counter' @ ''.heif'';
               out_path = path_join output_dir new_name
           in case write_file env w out_path image_bytes of
                NotCreated \<Rightarrow> (Inl OSError, w)
              | Partial b \<Rightarrow> (Inl OSError, w\<lparr>written := written w @ [(out_path, b)]\<rparr>)
              | Written \<Rightarrow>
                  (let w1 = w\<lparr>written := written w @ [(out_path, image_bytes)]\<rparr>;
                       line = barcode @ '', '' @ source @ [CHR 0x0A]
                   in if append_text env w1 metadata_file_path line
                      then save_images env output_dir metadata_file_path zip_entries
                             filename_to_meta rest counter'
                             (w1\<lparr>appended := appended w1 @ [(metadata_file_path, line)]\<rparr>)
                      else (Inl (if close_append env w1 metadata_file_path then MetaWriteError
                                 else OSError), w1))))"

text \<open>Lines 121 to 171: what the function does once the URL and the list are there.\<close>

definition fetch_and_save ::
  "env \<Rightarrow> string \<Rightarrow> json list \<Rightarrow> int \<Rightarrow> string \<Rightarrow> string \<Rightarrow> world \<Rightarrow> (error + int) \<times> world"
where
  "fetch_and_save env zip_url items image_counter_start output_dir metadata_file_path w =
     (case download_bytes env zip_url default_max_retries w of
        (Inl e, w1) \<Rightarrow> (Inl e, w1)
      | (Inr None, w1) \<Rightarrow> (Inr image_counter_start, add_log ERROR (NoData zip_url) w1)
      | (Inr (Some zip_bytes), w1) \<Rightarrow>
          if zip_bytes = [] then (Inr image_counter_start, add_log ERROR (NoData zip_url) w1)
          else
            (case extract_zip_entries env zip_bytes of
               Inl e \<Rightarrow> (Inl e, w1)
             | Inr zip_entries \<Rightarrow>
                 if zip_entries = []
                 then (Inr image_counter_start, add_log WARNING (ZipNoEntries zip_url) w1)
                 else
                   (case build_filename_to_meta [] items of
                      Inl e \<Rightarrow> (Inl e, w1)
                    | Inr filename_to_meta \<Rightarrow>
                        if open_append env w1 metadata_file_path
                        then save_images env output_dir metadata_file_path zip_entries
                               filename_to_meta (sorted_filenames filename_to_meta)
                               image_counter_start w1
                        else (Inl OSError, w1))))"

definition process_shelf_tags_row ::
  "env \<Rightarrow> row \<Rightarrow> string \<Rightarrow> string \<Rightarrow> int \<Rightarrow> string \<Rightarrow> string \<Rightarrow> world \<Rightarrow> (error + int) \<times> world"
where
  "process_shelf_tags_row env row zip_url_field json_field image_counter_start output_dir
       metadata_file_path w =
     (let zip_url = strip (case get_field_value row zip_url_field of None \<Rightarrow> [] | Some s \<Rightarrow> s);
          json_blob = get_field_value row json_field
      in case safe_json_loads env json_blob w of
           (Inl e, w1) \<Rightarrow> (Inl e, w1)
         | (Inr items, w1) \<Rightarrow>
             if zip_url = []
             then (Inr image_counter_start, add_log INFO (SkipNoUrl zip_url_field) w1)
             else
               (case items of
                  JList (x # xs) \<Rightarrow>
                    fetch_and_save env zip_url (x # xs) image_counter_start output_dir
                      metadata_file_path w1
                | _ \<Rightarrow>
                    (Inr image_counter_start, add_log INFO (SkipInvalidJson json_field) w1)))"

subsection \<open>The driver\<close>

record args =
  args_out :: string
  args_start :: int
  args_zip_field :: string
  args_json_field :: string
  args_limit_rows :: int

text \<open>
  The loop of \<^verbatim>\<open>main\<close> over \<^verbatim>\<open>enumerate(rows)\<close>, with \<^verbatim>\<open>image_counter\<close> and
  \<^verbatim>\<open>processed_rows\<close>; it returns the final \<^verbatim>\<open>image_counter\<close>.
\<close>

fun main_loop ::
  "env \<Rightarrow> args \<Rightarrow> string \<Rightarrow> (nat \<times> row) list \<Rightarrow> int \<Rightarrow> int \<Rightarrow> world \<Rightarrow> int \<times> world"
where
  "main_loop env a metadata_file_path [] image_counter processed_rows w = (image_counter, w)"
| "main_loop env a metadata_file_path ((idx, row) # rest) image_counter processed_rows w =
     (if args_limit_rows a \<noteq> 0 \<and> processed_rows \<ge> args_limit_rows a then (image_counter, w)
      else
        (case process_shelf_tags_row env row (args_zip_field a) (args_json_field a)
                image_counter (args_out a) metadata_file_path w of
           (Inr c, w1) \<Rightarrow> main_loop env a metadata_file_path rest c (processed_rows + 1) w1
         | (Inl e, w1) \<Rightarrow>
             main_loop env a metadata_file_path rest image_counter processed_rows
               (add_log ERROR (RowError idx e) w1)))"

definition main :: "env \<Rightarrow> args \<Rightarrow> row list \<Rightarrow> world \<Rightarrow> world" where
  "main env a rows w =
     (let metadata_file_path = path_join (args_out a) ''metadata.txt''
      in if rows = [] then add_log WARNING NoRows w
         else
           (case main_loop env a metadata_file_path (enumerate 0 rows) (args_start a) 0
                   (add_log INFO (Loaded (length rows)) w) of
              (image_counter, w1) \<Rightarrow> add_log INFO (Done image_counter) w1))"

subsection \<open>Notions used to state the properties\<close>

text \<open>The path of the image numbered \<open>n\<close>, and the metadata line of a barcode and a source.\<close>

definition heif_path :: "string \<Rightarrow> int \<Rightarrow> string" where
  "heif_path output_dir n = path_join output_dir (str_of_int n @ ''.heif'')"

definition meta_line :: "string \<Rightarrow> string \<Rightarrow> string" where
  "meta_line barcode source = barcode @ '', '' @ source @ [CHR 0x0A]"

text \<open>
  What the saving loop saves, in its order: for each filename found in the archive, the
  image bytes with the barcode and source recorded for the filename.
\<close>

definition saved_of ::
  "(string \<times> bytes) list \<Rightarrow> meta_dict \<Rightarrow> string list \<Rightarrow> (bytes \<times> string \<times> string) list"
where
  "saved_of zip_entries filename_to_meta names =
     concat (map (\<lambda>f. case map_of zip_entries f of
                         None \<Rightarrow> []
                       | Some img \<Rightarrow>
                           [(img, case map_of filename_to_meta f of
                                    None \<Rightarrow> ([], [])
                                  | Some bs \<Rightarrow> bs)]) names)"

text \<open>
  The files and the lines of a list of saved triples, for images numbered from \<open>s + 1\<close>.
\<close>

definition saved_files :: "string \<Rightarrow> int \<Rightarrow> (bytes \<times> string \<times> string) list \<Rightarrow> (string \<times> bytes) list" where
  "saved_files output_dir s saved =
     map (\<lambda>(n, img, barcode, source). (path_join output_dir (str_of_int n @ ''.heif''), img))
       (zip [s + 1..s + int (length saved)] saved)"

definition saved_lines :: "string \<Rightarrow> (bytes \<times> string \<times> string) list \<Rightarrow> (string \<times> string) list" where
  "saved_lines metadata_file_path saved =
     map (\<lambda>(img, barcode, source). (metadata_file_path, barcode @ '', '' @ source @ [CHR 0x0A]))
       saved"

text \<open>The number of lines a text adds to a file: its newline characters.\<close>

definition line_count :: "string \<Rightarrow> nat" where
  "line_count t = length (filter (\<lambda>c. c = CHR 0x0A) t)"

text \<open>
  A run in which no row raises after it has written a file: the loop of \<^verbatim>\<open>main\<close> again,
  checking at each row that raises that the files written are those from before the row.
\<close>

fun rows_atomic ::
  "env \<Rightarrow> args \<Rightarrow> string \<Rightarrow> (nat \<times> row) list \<Rightarrow> int \<Rightarrow> int \<Rightarrow> world \<Rightarrow> bool"
where
  "rows_atomic env a metadata_file_path [] image_counter processed_rows w = True"
| "rows_atomic env a metadata_file_path ((idx, row) # rest) image_counter processed_rows w =
     (if args_limit_rows a \<noteq> 0 \<and> processed_rows \<ge> args_limit_rows a then True
      else
        (case process_shelf_tags_row env row (args_zip_field a) (args_json_field a)
                image_counter (args_out a) metadata_file_path w of
           (Inr c, w1) \<Rightarrow> rows_atomic env a metadata_file_path rest c (processed_rows + 1) w1
         | (Inl e, w1) \<Rightarrow>
             written w1 = written w \<and>
             rows_atomic env a metadata_file_path rest image_counter processed_rows
               (add_log ERROR (RowError idx e) w1)))"

definition run_atomic :: "env \<Rightarrow> args \<Rightarrow> row list \<Rightarrow> world \<Rightarrow> bool" where
  "run_atomic env a rows w =
     rows_atomic env a (path_join (args_out a) ''metadata.txt'') (enumerate 0 rows)
       (args_start a) 0 (add_log INFO (Loaded (length rows)) w)"

text \<open>The wait after a failed attempt.\<close>

definition backoff :: "int \<Rightarrow> int" where
  "backoff attempt = min (2 ^ nat attempt) 10"

text \<open>A metadata object of the documented shape.\<close>

definition tagged_object :: "string \<Rightarrow> json \<Rightarrow> json \<Rightarrow> json" where
  "tagged_object fn barcode src =
     JObj [(''uploaded_image'', JObj [(''image_filename'', JStr fn)]),
           (''barcode'', barcode), (''barcode_detection_source'', src)]"

text \<open>A world in which nothing has happened yet.\<close>

definition world0 :: world where
  "world0 = \<lparr>requests = 0, slept = [], logged = [], written = [], appended = []\<rparr>"

text \<open>
  An example run: a cell holding three objects, an archive with three images, a server
  that answers the first request and a file system that takes every write.
\<close>

definition example_items :: "json list" where
  "example_items =
     [tagged_object ''img_10.jpg'' (JStr ''4006381333931'') (JStr ''ocr''),
      tagged_object ''cover.jpg'' (JNum 12345) JNull,
      tagged_object ''img_2.jpg'' (JStr '' 0012 '') (JStr ''scanner'')]"

definition example_json :: string where
  "example_json =
     ''[{\"uploaded_image\":{\"image_filename\":\"img_10.jpg\"},\"barcode\":\"4006381333931\",\"barcode_detection_source\":\"ocr\"},''
     @ ''{\"uploaded_image\":{\"image_filename\":\"cover.jpg\"},\"barcode\":12345,\"barcode_detection_source\":null},''
     @ ''{\"uploaded_image\":{\"image_filename\":\"img_2.jpg\"},\"barcode\":\" 0012 \",\"barcode_detection_source\":\"scanner\"}]''"

definition example_env :: env where
  "example_env =
     \<lparr>json_loads = (\<lambda>t. if t = ''[]'' then Decoded (JList [])
                         else if t = example_json then Decoded (JList example_items)
                         else JSONDecodeError),
      urlopen = (\<lambda>k url. Body [80, 75]),
      zip_members = (\<lambda>b. Some [(''tags/img_2.jpg'', [2]), (''tags/img_10.jpg'', [10]),
                                (''cover.jpg'', [7])]),
      open_append = (\<lambda>w p. True),
      write_file = (\<lambda>w p b. Written),
      append_text = (\<lambda>w p t. True),
      close_append = (\<lambda>w p. True)\<rparr>"

definition example_row :: row where
  "example_row =
     [(''STORE'', Some ''17''),
      (''SHELF_TAGS '', Some '' http://x/a.zip''),
      (''SHELF_TAGS_IMAGES_URL'', Some example_json)]"

definition example_args :: args where
  "example_args =
     \<lparr>args_out = ''out'', args_start = 0, args_zip_field = ''SHELF_TAGS'',
      args_json_field = ''SHELF_TAGS_IMAGES_URL'', args_limit_rows = 0\<rparr>"

text \<open>A server that times out twice before it answers, and one that never answers.\<close>

definition flaky_env :: env where
  "flaky_env = example_env\<lparr>urlopen := (\<lambda>k url. if k < 2 then Failed ''timed out'' else Body [80, 75])\<rparr>"

definition down_env :: env where
  "down_env = example_env\<lparr>urlopen := (\<lambda>k url. Failed ''timed out'')\<rparr>"

text \<open>A server whose first request dies with an exception the fetcher does not catch.\<close>

definition hiccup_env :: env where
  "hiccup_env = example_env\<lparr>urlopen := (\<lambda>k url. if k = 0 then Raised else Body [80, 75])\<rparr>"

text \<open>A row with a given JSON cell, and a server whose archives have no members.\<close>

definition row_with_json :: "string \<Rightarrow> row" where
  "row_with_json t =
     [(''SHELF_TAGS'', Some ''http://x/a.zip''), (''SHELF_TAGS_IMAGES_URL'', Some t)]"

definition empty_zip_env :: env where
  "empty_zip_env = example_env\<lparr>zip_members := (\<lambda>b. Some [])\<rparr>"

text \<open>
  An object whose barcode the matching loop rejects: missing or \<^verbatim>\<open>None\<close>, the string
  \<^verbatim>\<open>null\<close>, empty once converted to text and trimmed, or then made of zeros only.
\<close>

definition barcode_unusable :: "json \<Rightarrow> bool" where
  "barcode_unusable obj =
     (case obj of
        JObj d \<Rightarrow>
          (let barcode_raw = dict_get d ''barcode''
           in barcode_raw = JNull \<or> barcode_raw = JStr ''null'' \<or>
              strip (py_str barcode_raw) = [] \<or> is_all_zeros (strip (py_str barcode_raw)))
      | _ \<Rightarrow> False)"

text \<open>What may follow the last dot of a filename for the digits before it to count.\<close>

definition has_ext :: "string \<Rightarrow> bool" where
  "has_ext ext = (ext \<noteq> [] \<and> CHR ''.'' \<notin> set ext)"

text \<open>
  A cell whose one object has a line break inside its source (the JSON escape
  \<^verbatim>\<open>\n\<close>), and an archive that holds its image.
\<close>

definition newline_json :: string where
  "newline_json =
     ''[{\"uploaded_image\":{\"image_filename\":\"a.jpg\"},\"barcode\":\"123\",''
     @ ''\"barcode_detection_source\":\"a'' @ [CHR 0x5C] @ ''nb\"}]''"

definition newline_env :: env where
  "newline_env =
     example_env
       \<lparr>json_loads :=
          (\<lambda>t. if t = newline_json
               then Decoded (JList [tagged_object ''a.jpg'' (JStr ''123'')
                                      (JStr (''a'' @ [CHR 0x0A] @ ''b''))])
               else JSONDecodeError),
        zip_members := (\<lambda>b. Some [(''a.jpg'', [1])])\<rparr>"

text \<open>
  A text that is no JSON document and that \<^verbatim>\<open>json.loads\<close> gives up on with
  \<^verbatim>\<open>RecursionError\<close>: a thousand opening brackets.
\<close>

definition deep_json :: string where
  "deep_json = replicate 1000 CHR ''[''"

definition deep_env :: env where
  "deep_env =
     example_env
       \<lparr>json_loads := (\<lambda>t. if t = deep_json then LoadsRaised else json_loads example_env t)\<rparr>"

text \<open>An output directory in which \<^verbatim>\<open>3.heif\<close> cannot be opened for writing.\<close>

definition blocked_env :: env where
  "blocked_env =
     example_env\<lparr>write_file := (\<lambda>w p b. if p = ''out/3.heif'' then NotCreated else Written)\<rparr>"

section \<open>Properties\<close>


lemma add_log_fields [simp]:
  "requests (add_log l m w) = requests w"
  "slept (add_log l m w) = slept w"
  "written (add_log l m w) = written w"
  "appended (add_log l m w) = appended w"
  "logged (add_log l m w) = logged w @ [(l, m)]"
  by (simp_all add: add_log_def)

lemma digit_val_digit_char: "d < 10 \<Longrightarrow> digit_val (digit_char d) = int d"
  by (simp add: digit_val_def digit_char_def)

lemma int_of_digits_snoc: "int_of_digits (s @ [c]) = 10 * int_of_digits s + digit_val c"
  by (simp add: int_of_digits_def)

lemma int_of_digits_str_of_nat: "int_of_digits (str_of_nat n) = int n"
proof (induction n rule: str_of_nat.induct)
  case (1 n)
  show ?case
  proof (cases "n < 10")
    case True
    then show ?thesis
      by (subst str_of_nat.simps) (simp add: int_of_digits_def digit_val_digit_char)
  next
    case False
    have "int_of_digits (str_of_nat n) =
            10 * int_of_digits (str_of_nat (n div 10)) + digit_val (digit_char (n mod 10))"
      using False by (subst str_of_nat.simps) (simp add: int_of_digits_snoc)
    also have "\<dots> = 10 * int (n div 10) + int (n mod 10)"
      using "1.IH"[OF False] by (simp add: digit_val_digit_char)
    also have "\<dots> = int n"
      by (simp add: zdiv_int zmod_int)
    finally show ?thesis .
  qed
qed

lemma is_digit_digit_char: "d < 10 \<Longrightarrow> is_digit (digit_char d)"
  by (simp add: is_digit_def digit_char_def)

lemma str_of_nat_digits: "str_of_nat n \<noteq> [] \<and> (\<forall>c \<in> set (str_of_nat n). is_digit c)"
proof (induction n rule: str_of_nat.induct)
  case (1 n)
  show ?case
  proof (cases "n < 10")
    case True
    then show ?thesis
      by (subst (1 2) str_of_nat.simps) (simp add: is_digit_digit_char)
  next
    case False
    then show ?thesis
      using "1.IH"[OF False] by (subst (1 2) str_of_nat.simps) (simp add: is_digit_digit_char)
  qed
qed

lemma str_of_nat_inj: "str_of_nat m = str_of_nat n \<Longrightarrow> m = n"
  by (metis int_of_digits_str_of_nat of_nat_eq_iff)

lemma not_digit_minus: "\<not> is_digit CHR ''-''" and not_digit_slash: "\<not> is_digit CHR ''/''"
  by (simp_all add: is_digit_def)

lemma str_of_int_inj: "str_of_int i = str_of_int j \<Longrightarrow> i = j"
proof -
  assume eq: "str_of_int i = str_of_int j"
  have hd_nat: "\<And>n. hd (str_of_nat n) \<noteq> CHR ''-''"
    using str_of_nat_digits not_digit_minus by (metis hd_in_set)
  consider "i < 0" "j < 0" | "i < 0" "\<not> j < 0" | "\<not> i < 0" "j < 0" | "\<not> i < 0" "\<not> j < 0"
    by blast
  then show ?thesis
  proof cases
    case 1
    with eq have "str_of_nat (nat (- i)) = str_of_nat (nat (- j))" by (simp add: str_of_int_def)
    then have "nat (- i) = nat (- j)" by (rule str_of_nat_inj)
    with 1 show ?thesis by simp
  next
    case 2
    with eq have "str_of_nat (nat j) = CHR ''-'' # str_of_nat (nat (- i))" by (simp add: str_of_int_def)
    with hd_nat[of "nat j"] show ?thesis by simp
  next
    case 3
    with eq have "str_of_nat (nat i) = CHR ''-'' # str_of_nat (nat (- j))" by (simp add: str_of_int_def)
    with hd_nat[of "nat i"] show ?thesis by simp
  next
    case 4
    with eq have "str_of_nat (nat i) = str_of_nat (nat j)" by (simp add: str_of_int_def)
    then have "nat i = nat j" by (rule str_of_nat_inj)
    with 4 show ?thesis by simp
  qed
qed

lemma str_of_nat_Cons: "\<exists>c cs. str_of_nat n = c # cs \<and> is_digit c"
  using str_of_nat_digits[of n] by (cases "str_of_nat n") auto

lemma str_of_int_Cons: "\<exists>c cs. str_of_int i = c # cs \<and> c \<noteq> CHR ''/''"
proof (cases "i < 0")
  case True
  then show ?thesis by (simp add: str_of_int_def)
next
  case False
  obtain c cs where "str_of_nat (nat i) = c # cs" "is_digit c"
    using str_of_nat_Cons by blast
  with False not_digit_slash show ?thesis by (auto simp: str_of_int_def)
qed

lemma heif_path_inj: "heif_path out i = heif_path out j \<Longrightarrow> i = j"
proof -
  assume eq: "heif_path out i = heif_path out j"
  have ns: "\<And>n. take 1 (str_of_int n @ ''.heif'') \<noteq> ''/''"
  proof -
    fix n
    obtain c cs where "str_of_int n = c # cs" "c \<noteq> CHR ''/''"
      using str_of_int_Cons by blast
    then show "take 1 (str_of_int n @ ''.heif'') \<noteq> ''/''" by simp
  qed
  then have "\<exists>pre. \<forall>n. heif_path out n = pre @ str_of_int n @ ''.heif''"
    unfolding heif_path_def path_join_def
    by (cases "out = [] \<or> take 1 (rev out) = ''/''") (auto intro: exI[of _ out] exI[of _ "out @ ''/''"])
  with eq have "str_of_int i = str_of_int j" by auto
  then show ?thesis by (rule str_of_int_inj)
qed

lemma distinct_heif_paths: "distinct (map (heif_path out) [a..b])"
  by (simp add: distinct_map inj_on_def heif_path_inj)


lemma download_attempts_files:
  "download_attempts env url mr as le w = (r, w') \<Longrightarrow>
     written w' = written w \<and> appended w' = appended w"
proof (induction as arbitrary: le w)
  case Nil
  then show ?case by (auto split: option.splits)
next
  case (Cons a as)
  show ?case
  proof (cases "urlopen env (requests w) url")
    case (Body b)
    with Cons.prems show ?thesis by (auto simp: Let_def)
  next
    case (Failed e)
    with Cons.prems Cons.IH show ?thesis by (fastforce simp: Let_def)
  next
    case Raised
    with Cons.prems show ?thesis by (auto simp: Let_def)
  qed
qed

lemma download_bytes_files:
  "download_bytes env url mr w = (r, w') \<Longrightarrow>
     written w' = written w \<and> appended w' = appended w"
  unfolding download_bytes_def by (rule download_attempts_files)

lemma safe_json_loads_files:
  "safe_json_loads env t w = (v, w') \<Longrightarrow>
     written w' = written w \<and> appended w' = appended w \<and> requests w' = requests w \<and> slept w' = slept w"
  by (auto simp: safe_json_loads_def Let_def split: option.splits if_splits loads_result.splits)

lemma build_filename_to_meta_append:
  "build_filename_to_meta m (xs @ ys) =
     (case build_filename_to_meta m xs of Inl e \<Rightarrow> Inl e | Inr m' \<Rightarrow> build_filename_to_meta m' ys)"
  by (induction xs arbitrary: m) (auto split: sum.splits)

lemma heif_path_eq: "path_join out (str_of_int n @ ''.heif'') = heif_path out n"
  by (simp add: heif_path_def)

lemma upto_Suc_shift: "[s + 1..s + int (Suc n)] = (s + 1) # [s + 1 + 1..s + 1 + int n]"
proof -
  have e: "s + int (Suc n) = s + 1 + int n" by simp
  show ?thesis unfolding e by (rule upto_rec1) simp
qed

lemma saved_files_Nil: "saved_files out s [] = []"
  by (simp add: saved_files_def)

lemma saved_files_Cons:
  "saved_files out s (sv # saved) = (heif_path out (s + 1), fst sv) # saved_files out (s + 1) saved"
proof -
  have "[s + 1..s + int (length (sv # saved))] = (s + 1) # [s + 1 + 1..s + 1 + int (length saved)]"
    using upto_Suc_shift[of s "length saved"] by simp
  then show ?thesis
    by (cases sv) (simp add: saved_files_def heif_path_def)
qed

lemma saved_lines_Nil: "saved_lines mp [] = []"
  by (simp add: saved_lines_def)

lemma saved_lines_Cons:
  "saved_lines mp (sv # saved) = (mp, meta_line (fst (snd sv)) (snd (snd sv))) # saved_lines mp saved"
  by (cases sv) (auto simp: saved_lines_def meta_line_def)

lemma length_saved_files: "length (saved_files out s saved) = length saved"
  by (simp add: saved_files_def)

lemma names_saved_files:
  "map fst (saved_files out s saved) = map (heif_path out) [s + 1..s + int (length saved)]"
proof (induction saved arbitrary: s)
  case Nil
  then show ?case by (simp add: saved_files_Nil)
next
  case (Cons sv saved)
  have "[s + 1..s + int (length (sv # saved))] = (s + 1) # [s + 1 + 1..s + 1 + int (length saved)]"
    using upto_Suc_shift[of s "length saved"] by simp
  with Cons.IH[of "s + 1"] show ?case by (simp add: saved_files_Cons)
qed

lemma save_images_returns:
  "save_images env out mp ze fm names c w = (Inr c', w') \<Longrightarrow>
     c' = c + int (length (saved_of ze fm names)) \<and>
     written w' = written w @ saved_files out c (saved_of ze fm names) \<and>
     appended w' = appended w @ saved_lines mp (saved_of ze fm names) \<and>
     requests w' = requests w \<and> slept w' = slept w"
proof (induction names arbitrary: c w)
  case Nil
  then show ?case by (simp add: saved_of_def saved_files_Nil saved_lines_Nil split: if_splits)
next
  case (Cons f names)
  show ?case
  proof (cases "map_of ze f")
    case None
    with Cons.prems
    have "save_images env out mp ze fm names c (add_log WARNING (MissingInZip f) w) = (Inr c', w')"
      by simp
    from Cons.IH[OF this] None show ?thesis by (simp add: saved_of_def)
  next
    case (Some img)
    define bs where "bs = (case map_of fm f of None \<Rightarrow> ([], []) | Some bs \<Rightarrow> bs)"
    define w1 where "w1 = w\<lparr>written := written w @ [(heif_path out (c + 1), img)]\<rparr>"
    define w2 where "w2 = w1\<lparr>appended := appended w1 @ [(mp, meta_line (fst bs) (snd bs))]\<rparr>"
    from Cons.prems Some have run: "save_images env out mp ze fm names (c + 1) w2 = (Inr c', w')"
      by (auto simp: Let_def bs_def w1_def w2_def heif_path_def meta_line_def
               split: prod.splits write_result.splits if_splits)
    have sv: "saved_of ze fm (f # names) = (img, bs) # saved_of ze fm names"
      using Some by (simp add: saved_of_def bs_def)
    from Cons.IH[OF run] show ?thesis
      by (simp add: sv saved_files_Cons saved_lines_Cons w1_def w2_def)
  qed
qed

lemma save_images_total_env:
  assumes "\<forall>w p b. write_file env w p b = Written" "\<forall>w p t. append_text env w p t"
    "\<forall>w p. close_append env w p"
  shows "\<exists>c' w'. save_images env out mp ze fm names c w = (Inr c', w')"
  using assms
proof (induction names arbitrary: c w)
  case Nil
  then show ?case by simp
next
  case (Cons f names)
  then show ?case
    by (cases "map_of ze f") (auto simp: Let_def split: prod.splits)
qed

lemma fetch_and_save_returns:
  assumes "fetch_and_save env url items s out mp w = (Inr c, w')"
  shows "(c = s \<and> written w' = written w \<and> appended w' = appended w) \<or>
         (\<exists>zb w1 ze fm.
            download_bytes env url default_max_retries w = (Inr (Some zb), w1) \<and>
            extract_zip_entries env zb = Inr ze \<and>
            build_filename_to_meta [] items = Inr fm \<and>
            c = s + int (length (saved_of ze fm (sorted_filenames fm))) \<and>
            written w' = written w @ saved_files out s (saved_of ze fm (sorted_filenames fm)) \<and>
            appended w' = appended w @ saved_lines mp (saved_of ze fm (sorted_filenames fm)))"
proof -
  obtain rd w1 where dl: "download_bytes env url default_max_retries w = (rd, w1)"
    by (cases "download_bytes env url default_max_retries w")
  note f1 = download_bytes_files[OF dl]
  show ?thesis
  proof (cases "\<exists>zb ze fm. rd = Inr (Some zb) \<and> zb \<noteq> [] \<and> extract_zip_entries env zb = Inr ze \<and>
      ze \<noteq> [] \<and> build_filename_to_meta [] items = Inr fm \<and> open_append env w1 mp")
    case True
    then obtain zb ze fm where h: "rd = Inr (Some zb)" "zb \<noteq> []" "extract_zip_entries env zb = Inr ze"
      "ze \<noteq> []" "build_filename_to_meta [] items = Inr fm" "open_append env w1 mp" by blast
    with assms dl have "save_images env out mp ze fm (sorted_filenames fm) s w1 = (Inr c, w')"
      by (simp add: fetch_and_save_def)
    from save_images_returns[OF this] f1 h dl show ?thesis by auto
  next
    case False
    with assms dl f1 have "c = s \<and> written w' = written w \<and> appended w' = appended w"
      by (auto simp: fetch_and_save_def split: sum.splits option.splits if_splits)
    then show ?thesis by blast
  qed
qed

lemma fetch_and_save_raises:
  assumes "fetch_and_save env url items s out mp w = (Inl e, w')"
  shows "(written w' = written w \<and> appended w' = appended w) \<or>
         (\<exists>ze fm w1. save_images env out mp ze fm (sorted_filenames fm) s w1 = (Inl e, w'))"
proof -
  obtain rd w1 where dl: "download_bytes env url default_max_retries w = (rd, w1)"
    by (cases "download_bytes env url default_max_retries w")
  note f1 = download_bytes_files[OF dl]
  show ?thesis
    using assms dl f1
    by (auto simp: fetch_and_save_def split: sum.splits option.splits if_splits)
qed

lemma process_returns:
  assumes "process_shelf_tags_row env row zf jf s out mp w = (Inr c, w')"
  shows "(c = s \<and> written w' = written w \<and> appended w' = appended w) \<or>
         (\<exists>items w1 zb w2 ze fm.
            safe_json_loads env (get_field_value row jf) w = (Inr (JList items), w1) \<and>
            download_bytes env (strip (case get_field_value row zf of None \<Rightarrow> [] | Some u \<Rightarrow> u))
              default_max_retries w1 = (Inr (Some zb), w2) \<and>
            extract_zip_entries env zb = Inr ze \<and>
            build_filename_to_meta [] items = Inr fm \<and>
            c = s + int (length (saved_of ze fm (sorted_filenames fm))) \<and>
            written w' = written w @ saved_files out s (saved_of ze fm (sorted_filenames fm)) \<and>
            appended w' = appended w @ saved_lines mp (saved_of ze fm (sorted_filenames fm)))"
proof -
  obtain ri w1 where js: "safe_json_loads env (get_field_value row jf) w = (ri, w1)"
    by (cases "safe_json_loads env (get_field_value row jf) w")
  note f1 = safe_json_loads_files[OF js]
  define url where "url = strip (case get_field_value row zf of None \<Rightarrow> [] | Some u \<Rightarrow> u)"
  show ?thesis
  proof (cases "\<exists>x xs. ri = Inr (JList (x # xs)) \<and> url \<noteq> []")
    case True
    then obtain x xs where h: "ri = Inr (JList (x # xs))" "url \<noteq> []" by blast
    with assms js have "fetch_and_save env url (x # xs) s out mp w1 = (Inr c, w')"
      unfolding process_shelf_tags_row_def url_def[symmetric] by (simp add: Let_def)
    from fetch_and_save_returns[OF this] f1 js h show ?thesis
      unfolding url_def[symmetric] by auto
  next
    case False
    with assms js f1 have "c = s \<and> written w' = written w \<and> appended w' = appended w"
      unfolding process_shelf_tags_row_def url_def[symmetric]
      by (auto simp: Let_def split: sum.splits json.splits list.splits if_splits)
    then show ?thesis by blast
  qed
qed

lemma process_raises:
  assumes "process_shelf_tags_row env row zf jf s out mp w = (Inl e, w')"
  shows "(written w' = written w \<and> appended w' = appended w) \<or>
         (\<exists>ze fm w1. save_images env out mp ze fm (sorted_filenames fm) s w1 = (Inl e, w'))"
proof -
  obtain ri w1 where js: "safe_json_loads env (get_field_value row jf) w = (ri, w1)"
    by (cases "safe_json_loads env (get_field_value row jf) w")
  note f1 = safe_json_loads_files[OF js]
  show ?thesis
    using assms js f1 fetch_and_save_raises[of env _ _ s out mp w1 e w']
    unfolding process_shelf_tags_row_def
    by (auto simp: Let_def split: sum.splits json.splits list.splits if_splits)
qed

lemma process_names:
  assumes "process_shelf_tags_row env row zf jf s out mp w = (Inr c, w')"
  shows "s \<le> c \<and> map fst (written w') = map fst (written w) @ map (heif_path out) [s + 1..c]"
  using process_returns[OF assms] by (auto simp: names_saved_files)

lemma upto_append_next: "a \<le> b + 1 \<Longrightarrow> b \<le> c \<Longrightarrow> [a..b] @ [b + 1..c] = [a..c]"
proof (cases "a \<le> b")
  case True
  assume "b \<le> c"
  with True show ?thesis by (simp add: upto_split2[of a b c])
next
  case False
  assume "a \<le> b + 1"
  with False have "a = b + 1" by simp
  then show ?thesis by simp
qed

lemma main_loop_names:
  "main_loop env a mp rows c p w = (c', w') \<Longrightarrow> rows_atomic env a mp rows c p w \<Longrightarrow>
     c \<le> c' \<and> map fst (written w') = map fst (written w) @ map (heif_path (args_out a)) [c + 1..c']"
proof (induction rows arbitrary: c p w)
  case Nil
  then show ?case by simp
next
  case (Cons ir rows)
  obtain idx row where ir: "ir = (idx, row)" by (cases ir)
  show ?case
  proof (cases "args_limit_rows a \<noteq> 0 \<and> p \<ge> args_limit_rows a")
    case True
    with Cons.prems ir show ?thesis by simp
  next
    case False
    obtain r w1 where pr: "process_shelf_tags_row env row (args_zip_field a) (args_json_field a)
        c (args_out a) mp w = (r, w1)"
      by (cases "process_shelf_tags_row env row (args_zip_field a) (args_json_field a) c (args_out a) mp w")
    show ?thesis
    proof (cases r)
      case (Inl e)
      with Cons.prems ir False pr
      have run: "main_loop env a mp rows c p (add_log ERROR (RowError idx e) w1) = (c', w')"
        and at: "rows_atomic env a mp rows c p (add_log ERROR (RowError idx e) w1)"
        and same: "written w1 = written w"
        by simp_all
      from Cons.IH[OF run at] same show ?thesis by simp
    next
      case (Inr c1)
      with Cons.prems ir False pr
      have run: "main_loop env a mp rows c1 (p + 1) w1 = (c', w')"
        and at: "rows_atomic env a mp rows c1 (p + 1) w1"
        by simp_all
      from Cons.IH[OF run at] have ih: "c1 \<le> c'"
        "map fst (written w') = map fst (written w1) @ map (heif_path (args_out a)) [c1 + 1..c']"
        by simp_all
      from pr Inr have "process_shelf_tags_row env row (args_zip_field a) (args_json_field a)
        c (args_out a) mp w = (Inr c1, w1)" by simp
      from process_names[OF this] have r1: "c \<le> c1"
        "map fst (written w1) = map fst (written w) @ map (heif_path (args_out a)) [c + 1..c1]"
        by simp_all
      have "[c + 1..c1] @ [c1 + 1..c'] = [c + 1..c']"
        using r1(1) ih(1) by (intro upto_append_next) simp_all
      then have "map (heif_path (args_out a)) [c + 1..c1] @ map (heif_path (args_out a)) [c1 + 1..c']
                   = map (heif_path (args_out a)) [c + 1..c']"
        by (metis map_append)
      with ih r1 show ?thesis by simp
    qed
  qed
qed

lemma main_names:
  assumes "main env a rows w = w'" "rows \<noteq> []" "run_atomic env a rows w"
  shows "\<exists>c. args_start a \<le> c \<and> last (logged w') = (INFO, Done c) \<and>
           map fst (written w') = map fst (written w) @ map (heif_path (args_out a)) [args_start a + 1..c]"
proof -
  define mp where "mp = path_join (args_out a) ''metadata.txt''"
  obtain c w1 where ml: "main_loop env a mp (enumerate 0 rows) (args_start a) 0
                   (add_log INFO (Loaded (length rows)) w) = (c, w1)"
    by (cases "main_loop env a mp (enumerate 0 rows) (args_start a) 0 (add_log INFO (Loaded (length rows)) w)")
  with assms have "w' = add_log INFO (Done c) w1"
    by (simp add: main_def Let_def mp_def)
  moreover from assms(3) have "rows_atomic env a mp (enumerate 0 rows) (args_start a) 0
                   (add_log INFO (Loaded (length rows)) w)"
    by (simp add: run_atomic_def mp_def)
  ultimately show ?thesis using main_loop_names[OF ml] by auto
qed

lemma process_raises_total_env:
  assumes "\<forall>w p b. write_file env w p b = Written" "\<forall>w p t. append_text env w p t"
    "\<forall>w p. close_append env w p"
    and "process_shelf_tags_row env row zf jf s out mp w = (Inl e, w')"
  shows "written w' = written w \<and> appended w' = appended w"
proof -
  from process_raises[OF assms(4)] show ?thesis
  proof
    assume "\<exists>ze fm w1. save_images env out mp ze fm (sorted_filenames fm) s w1 = (Inl e, w')"
    then obtain ze fm w1 where "save_images env out mp ze fm (sorted_filenames fm) s w1 = (Inl e, w')"
      by blast
    with save_images_total_env[OF assms(1,2,3), of out mp ze fm "sorted_filenames fm" s w1]
    show ?thesis by simp
  qed
qed

lemma rows_atomic_total_env:
  assumes "\<forall>w p b. write_file env w p b = Written" "\<forall>w p t. append_text env w p t"
    "\<forall>w p. close_append env w p"
  shows "rows_atomic env a mp rows c p w"
proof -
  have "\<forall>c p w. rows_atomic env a mp rows c p w"
  proof (induction rows)
    case Nil
    then show ?case by simp
  next
    case (Cons ir rows)
    show ?case
    proof (intro allI)
      fix c p w
      obtain idx row where ir: "ir = (idx, row)" by (cases ir)
      obtain r w1 where pr: "process_shelf_tags_row env row (args_zip_field a) (args_json_field a)
            c (args_out a) mp w = (r, w1)"
        by (cases "process_shelf_tags_row env row (args_zip_field a) (args_json_field a) c
                     (args_out a) mp w")
      show "rows_atomic env a mp (ir # rows) c p w"
      proof (cases r)
        case (Inl e)
        with pr have "written w1 = written w"
          using process_raises_total_env[OF assms] by blast
        with pr Inl Cons.IH ir show ?thesis by simp
      next
        case (Inr c1)
        with pr Cons.IH ir show ?thesis by simp
      qed
    qed
  qed
  then show ?thesis by blast
qed

lemma run_atomic_total_env:
  "\<forall>w p b. write_file env w p b = Written \<Longrightarrow> \<forall>w p t. append_text env w p t \<Longrightarrow>
     \<forall>w p. close_append env w p \<Longrightarrow> run_atomic env a rows w"
  unfolding run_atomic_def by (rule rows_atomic_total_env)

subsection \<open>The example run, evaluated step by step\<close>

lemma ex_url: "get_field_value example_row ''SHELF_TAGS'' = Some '' http://x/a.zip''"
  by (simp add: get_field_value_def example_row_def normalize_field_name_def is_space_def)

lemma ex_blob: "get_field_value example_row ''SHELF_TAGS_IMAGES_URL'' = Some example_json"
  by (simp add: get_field_value_def example_row_def)

lemma ex_strip_url: "strip '' http://x/a.zip'' = ''http://x/a.zip''"
  by (simp add: strip_def is_space_def)

lemma strip_id: "s \<noteq> [] \<Longrightarrow> \<not> is_space (hd s) \<Longrightarrow> \<not> is_space (last s) \<Longrightarrow> strip s = s"
proof -
  assume a: "s \<noteq> []" "\<not> is_space (hd s)" "\<not> is_space (last s)"
  then have "dropWhile is_space s = s" by (cases s) simp_all
  moreover have "dropWhile is_space (rev s) = rev s"
    using a by (cases "rev s") (simp_all add: last_rev[symmetric] hd_rev)
  ultimately show ?thesis by (simp add: strip_def)
qed

lemma ex_strip_json: "strip example_json = example_json"
  by (rule strip_id) (simp_all add: example_json_def is_space_def)

lemma ex_loads:
  assumes "json_loads env = json_loads example_env"
  shows "safe_json_loads env (Some example_json) w = (Inr (JList example_items), w)"
proof -
  have "example_json \<noteq> []" "example_json \<noteq> ''[]''" by (simp_all add: example_json_def)
  then show ?thesis
    using assms by (simp add: safe_json_loads_def ex_strip_json example_env_def)
qed

lemma ex_download:
  assumes "urlopen env (requests w) url = Body [80, 75]"
  shows "download_bytes env url default_max_retries w
     = (Inr (Some [80, 75]), w\<lparr>requests := Suc (requests w)\<rparr>)"
  using assms
  by (simp add: download_bytes_def default_max_retries_def upto_rec1 Let_def)

lemma ex_zip:
  assumes "zip_members env = zip_members example_env"
  shows "extract_zip_entries env [80, 75]
     = Inr [(''img_2.jpg'', [2]), (''img_10.jpg'', [10]), (''cover.jpg'', [7])]"
  using assms by (simp add: extract_zip_entries_def example_env_def basename_def)

lemmas string_eval =
  strip_def is_space_def is_digit_def is_all_zeros_def str_of_int_def str_of_nat.simps
  digit_char_def char_of_eq_iff

lemma ex_build:
  "build_filename_to_meta [] example_items =
     Inr [(''img_10.jpg'', ''4006381333931'', ''ocr''), (''cover.jpg'', ''12345'', ''''),
          (''img_2.jpg'', ''0012'', ''scanner'')]"
  by (simp add: example_items_def tagged_object_def meta_step_def dict_get_def py_or_def
        py_str_def Let_def string_eval)

lemma ex_sorted:
  "sorted_filenames [(''img_10.jpg'', ''4006381333931'', ''ocr''), (''cover.jpg'', ''12345'', ''''),
       (''img_2.jpg'', ''0012'', ''scanner'')]
   = [''img_2.jpg'', ''img_10.jpg'', ''cover.jpg'']"
  by code_simp

lemma ex_save:
  assumes "\<forall>w p b. write_file env w p b = Written" "\<forall>w p t. append_text env w p t"
    "\<forall>w p. close_append env w p"
  shows "save_images env out mp [(''img_2.jpg'', [2]), (''img_10.jpg'', [10]), (''cover.jpg'', [7])]
      [(''img_10.jpg'', ''4006381333931'', ''ocr''), (''cover.jpg'', ''12345'', ''''),
       (''img_2.jpg'', ''0012'', ''scanner'')]
      [''img_2.jpg'', ''img_10.jpg'', ''cover.jpg''] s w
   = (Inr (s + 3),
      w\<lparr>written := written w @ [(heif_path out (s + 1), [2]), (heif_path out (s + 2), [10]),
                                 (heif_path out (s + 3), [7])],
        appended := appended w @ [(mp, meta_line ''0012'' ''scanner''),
                                  (mp, meta_line ''4006381333931'' ''ocr''),
                                  (mp, meta_line ''12345'' '''')]\<rparr>)"
  using assms by (simp add: Let_def heif_path_def meta_line_def add.commute)

lemma ex_items_nonempty: "example_items \<noteq> []"
  by (simp add: example_items_def)

lemma example_row_run:
  assumes "json_loads env = json_loads example_env"
    and "zip_members env = zip_members example_env"
    and "urlopen env (requests w) ''http://x/a.zip'' = Body [80, 75]"
    and "\<forall>w p. open_append env w p"
    and "\<forall>w p b. write_file env w p b = Written" "\<forall>w p t. append_text env w p t"
    and "\<forall>w p. close_append env w p"
  shows "process_shelf_tags_row env example_row ''SHELF_TAGS'' ''SHELF_TAGS_IMAGES_URL'' s
      out mp w
   = (Inr (s + 3),
      w\<lparr>requests := Suc (requests w),
        written := written w @ [(heif_path out (s + 1), [2]), (heif_path out (s + 2), [10]),
                                 (heif_path out (s + 3), [7])],
        appended := appended w @ [(mp, meta_line ''0012'' ''scanner''),
                                  (mp, meta_line ''4006381333931'' ''ocr''),
                                  (mp, meta_line ''12345'' [])]\<rparr>)"
proof -
  obtain x xs where it: "example_items = x # xs"
    using ex_items_nonempty by (cases example_items) auto
  have "fetch_and_save env ''http://x/a.zip'' example_items s out mp w
     = (Inr (s + 3),
      w\<lparr>requests := Suc (requests w),
        written := written w @ [(heif_path out (s + 1), [2]), (heif_path out (s + 2), [10]),
                                 (heif_path out (s + 3), [7])],
        appended := appended w @ [(mp, meta_line ''0012'' ''scanner''),
                                  (mp, meta_line ''4006381333931'' ''ocr''),
                                  (mp, meta_line ''12345'' [])]\<rparr>)"
    using assms(4)
    by (simp add: fetch_and_save_def ex_download[OF assms(3)] ex_zip[OF assms(2)] ex_build
          ex_sorted ex_save[OF assms(5,6,7)] del: save_images.simps)
  then show ?thesis
    by (simp add: process_shelf_tags_row_def ex_url ex_blob ex_strip_url ex_loads[OF assms(1)] it)
qed

lemma example_env_run:
  "process_shelf_tags_row example_env example_row ''SHELF_TAGS'' ''SHELF_TAGS_IMAGES_URL'' s
      out mp w
   = (Inr (s + 3),
      w\<lparr>requests := Suc (requests w),
        written := written w @ [(heif_path out (s + 1), [2]), (heif_path out (s + 2), [10]),
                                 (heif_path out (s + 3), [7])],
        appended := appended w @ [(mp, meta_line ''0012'' ''scanner''),
                                  (mp, meta_line ''4006381333931'' ''ocr''),
                                  (mp, meta_line ''12345'' [])]\<rparr>)"
  by (rule example_row_run) (simp_all add: example_env_def)

lemma ex_main:
  assumes "args_out a = ''out''" "args_zip_field a = ''SHELF_TAGS''"
    "args_json_field a = ''SHELF_TAGS_IMAGES_URL''" "args_limit_rows a = 0"
  shows "main example_env a [example_row] w
     = w\<lparr>requests := Suc (requests w),
         logged := logged w @ [(INFO, Loaded 1), (INFO, Done (args_start a + 3))],
         written := written w @ [(heif_path ''out'' (args_start a + 1), [2]),
                                 (heif_path ''out'' (args_start a + 2), [10]),
                                 (heif_path ''out'' (args_start a + 3), [7])],
         appended := appended w @ [(''out/metadata.txt'', meta_line ''0012'' ''scanner''),
                                  (''out/metadata.txt'', meta_line ''4006381333931'' ''ocr''),
                                  (''out/metadata.txt'', meta_line ''12345'' [])]\<rparr>"
  using assms by (simp add: main_def example_env_run add_log_def path_join_def Let_def)
subsection \<open>One metadata line per image, in counter order\<close>

lemma line_count_append: "line_count (xs @ ys) = line_count xs + line_count ys"
  by (simp add: line_count_def)

lemma line_count_none: "CHR 0x0A \<notin> set t \<Longrightarrow> line_count t = 0"
  by (induction t) (auto simp: line_count_def)

lemma line_count_saved_lines:
  "\<forall>(img, barcode, source) \<in> set saved. CHR 0x0A \<notin> set barcode \<and> CHR 0x0A \<notin> set source \<Longrightarrow>
     line_count (concat (map snd (saved_lines mp saved))) = length saved"
proof (induction saved)
  case Nil
  then show ?case by (simp add: saved_lines_def line_count_def)
next
  case (Cons sv saved)
  obtain img b s where sv: "sv = (img, b, s)" by (cases sv)
  with Cons.prems have nb: "CHR 0x0A \<notin> set b" "CHR 0x0A \<notin> set s" by auto
  have "line_count (meta_line b s) = 1"
    using nb by (auto simp: meta_line_def line_count_def filter_empty_conv)
  with Cons sv show ?case
    by (simp add: saved_lines_Cons line_count_append)
qed

lemma newline_strip: "strip newline_json = newline_json"
  by (rule strip_id) (simp_all add: newline_json_def is_space_def)

text \<open>
  Claim C3. When the row processor returns \<open>c_end\<close> for the starting counter \<open>s\<close>, it
  has written exactly \<open>c_end - s\<close> image files and made exactly \<open>c_end - s\<close> writes to
  the metadata log. Either it saved nothing, or the row's cell decoded to a list, the
  archive was fetched and read, the matching loop gave a mapping, and with \<open>saved\<close> the
  images of the mapping's filenames found in the archive, in sorted order, the files
  written are these images under the names \<open>s + 1\<close>, ..., \<open>c_end\<close> in that order and the
  texts written to the log are their \<^verbatim>\<open><barcode>, <source>\n\<close> in the same order. These
  texts are one line each, so that lines and images match one to one, when no barcode
  and no source of \<open>saved\<close> contains a line break.
\<close>

theorem row_lines_match_images:
  assumes "process_shelf_tags_row env row zip_url_field json_field s out mp w = (Inr c_end, w')"
  shows "int (length (written w')) - int (length (written w)) = c_end - s \<and>
         int (length (appended w')) - int (length (appended w)) = c_end - s \<and>
         ((c_end = s \<and> written w' = written w \<and> appended w' = appended w) \<or>
          (\<exists>items w1 zip_bytes w2 zip_entries filename_to_meta saved.
             safe_json_loads env (get_field_value row json_field) w = (Inr (JList items), w1) \<and>
             download_bytes env
               (strip (case get_field_value row zip_url_field of None \<Rightarrow> [] | Some u \<Rightarrow> u))
               default_max_retries w1 = (Inr (Some zip_bytes), w2) \<and>
             extract_zip_entries env zip_bytes = Inr zip_entries \<and>
             build_filename_to_meta [] items = Inr filename_to_meta \<and>
             saved = saved_of zip_entries filename_to_meta (sorted_filenames filename_to_meta) \<and>
             c_end = s + int (length saved) \<and>
             written w' = written w @ saved_files out s saved \<and>
             appended w' = appended w @ saved_lines mp saved \<and>
             ((\<forall>(img, barcode, source) \<in> set saved.
                  CHR 0x0A \<notin> set barcode \<and> CHR 0x0A \<notin> set source)
                \<longrightarrow> line_count (concat (map snd (saved_lines mp saved))) = length saved)))"
proof -
  from process_returns[OF assms]
  show ?thesis
  proof
    assume "c_end = s \<and> written w' = written w \<and> appended w' = appended w"
    then show ?thesis by simp
  next
    assume "\<exists>items w1 zb w2 ze fm.
            safe_json_loads env (get_field_value row json_field) w = (Inr (JList items), w1) \<and>
            download_bytes env (strip (case get_field_value row zip_url_field of None \<Rightarrow> [] | Some u \<Rightarrow> u))
              default_max_retries w1 = (Inr (Some zb), w2) \<and>
            extract_zip_entries env zb = Inr ze \<and>
            build_filename_to_meta [] items = Inr fm \<and>
            c_end = s + int (length (saved_of ze fm (sorted_filenames fm))) \<and>
            written w' = written w @ saved_files out s (saved_of ze fm (sorted_filenames fm)) \<and>
            appended w' = appended w @ saved_lines mp (saved_of ze fm (sorted_filenames fm))"
    then obtain items w1 zb w2 ze fm where h:
      "safe_json_loads env (get_field_value row json_field) w = (Inr (JList items), w1)"
      "download_bytes env (strip (case get_field_value row zip_url_field of None \<Rightarrow> [] | Some u \<Rightarrow> u))
              default_max_retries w1 = (Inr (Some zb), w2)"
      "extract_zip_entries env zb = Inr ze"
      "build_filename_to_meta [] items = Inr fm"
      "c_end = s + int (length (saved_of ze fm (sorted_filenames fm)))"
      "written w' = written w @ saved_files out s (saved_of ze fm (sorted_filenames fm))"
      "appended w' = appended w @ saved_lines mp (saved_of ze fm (sorted_filenames fm))"
      by blast
    define saved where "saved = saved_of ze fm (sorted_filenames fm)"
    have n1: "int (length (written w')) - int (length (written w)) = c_end - s"
      using h(5,6) by (simp add: length_saved_files)
    have n2: "int (length (appended w')) - int (length (appended w)) = c_end - s"
      using h(5,7) by (simp add: saved_lines_def)
    have lc: "(\<forall>(img, barcode, source) \<in> set saved.
                  CHR 0x0A \<notin> set barcode \<and> CHR 0x0A \<notin> set source)
                \<longrightarrow> line_count (concat (map snd (saved_lines mp saved))) = length saved"
      using line_count_saved_lines by blast
    have "\<exists>items w1 zip_bytes w2 zip_entries filename_to_meta saved.
             safe_json_loads env (get_field_value row json_field) w = (Inr (JList items), w1) \<and>
             download_bytes env
               (strip (case get_field_value row zip_url_field of None \<Rightarrow> [] | Some u \<Rightarrow> u))
               default_max_retries w1 = (Inr (Some zip_bytes), w2) \<and>
             extract_zip_entries env zip_bytes = Inr zip_entries \<and>
             build_filename_to_meta [] items = Inr filename_to_meta \<and>
             saved = saved_of zip_entries filename_to_meta (sorted_filenames filename_to_meta) \<and>
             c_end = s + int (length saved) \<and>
             written w' = written w @ saved_files out s saved \<and>
             appended w' = appended w @ saved_lines mp saved \<and>
             ((\<forall>(img, barcode, source) \<in> set saved.
                  CHR 0x0A \<notin> set barcode \<and> CHR 0x0A \<notin> set source)
                \<longrightarrow> line_count (concat (map snd (saved_lines mp saved))) = length saved)"
      using h lc unfolding saved_def
      by (intro exI[of _ items] exI[of _ w1] exI[of _ zb] exI[of _ w2] exI[of _ ze] exI[of _ fm]
            exI[of _ "saved_of ze fm (sorted_filenames fm)"]) (intro conjI; assumption?; simp?)
    with n1 n2 show ?thesis by blast
  qed
qed


theorem row_lines_match_images_witness:
  "fst (process_shelf_tags_row example_env example_row ''SHELF_TAGS'' ''SHELF_TAGS_IMAGES_URL'' 0
         ''out'' ''out/metadata.txt'' world0) = Inr 3 \<and>
   length (written (snd (process_shelf_tags_row example_env example_row ''SHELF_TAGS''
         ''SHELF_TAGS_IMAGES_URL'' 0 ''out'' ''out/metadata.txt'' world0))) = 3 \<and>
   length (appended (snd (process_shelf_tags_row example_env example_row ''SHELF_TAGS''
         ''SHELF_TAGS_IMAGES_URL'' 0 ''out'' ''out/metadata.txt'' world0))) = 3 \<and>
   line_count (concat (map snd (appended (snd (process_shelf_tags_row example_env example_row
         ''SHELF_TAGS'' ''SHELF_TAGS_IMAGES_URL'' 0 ''out'' ''out/metadata.txt'' world0))))) = 3"
proof -
  define res where "res = process_shelf_tags_row example_env example_row ''SHELF_TAGS''
         ''SHELF_TAGS_IMAGES_URL'' 0 ''out'' ''out/metadata.txt'' world0"
  have f: "fst res = Inr 3"
    unfolding res_def by (simp add: example_env_run)
  then have run: "process_shelf_tags_row example_env example_row ''SHELF_TAGS''
         ''SHELF_TAGS_IMAGES_URL'' 0 ''out'' ''out/metadata.txt'' world0 = (Inr 3, snd res)"
    unfolding res_def by (metis prod.collapse)
  note inst = row_lines_match_images[OF run]
  have "int (length (written (snd res))) - int (length (written world0)) = 3 - 0 \<and>
        int (length (appended (snd res))) - int (length (appended world0)) = 3 - 0"
    using inst by blast
  then have len: "length (written (snd res)) = 3 \<and> length (appended (snd res)) = 3"
    by (simp add: world0_def)
  have "\<exists>items w1 zip_bytes w2 zip_entries filename_to_meta saved.
          safe_json_loads example_env (get_field_value example_row ''SHELF_TAGS_IMAGES_URL'') world0
            = (Inr (JList items), w1) \<and>
          download_bytes example_env
            (strip (case get_field_value example_row ''SHELF_TAGS'' of None \<Rightarrow> [] | Some u \<Rightarrow> u))
            default_max_retries w1 = (Inr (Some zip_bytes), w2) \<and>
          extract_zip_entries example_env zip_bytes = Inr zip_entries \<and>
          build_filename_to_meta [] items = Inr filename_to_meta \<and>
          saved = saved_of zip_entries filename_to_meta (sorted_filenames filename_to_meta) \<and>
          (3::int) = 0 + int (length saved) \<and>
          written (snd res) = written world0 @ saved_files ''out'' 0 saved \<and>
          appended (snd res) = appended world0 @ saved_lines ''out/metadata.txt'' saved \<and>
          ((\<forall>(img, barcode, source) \<in> set saved.
               CHR 0x0A \<notin> set barcode \<and> CHR 0x0A \<notin> set source)
             \<longrightarrow> line_count (concat (map snd (saved_lines ''out/metadata.txt'' saved)))
                   = length saved)"
    using inst[THEN conjunct2, THEN conjunct2] by simp
  then obtain items w1 zip_bytes w2 zip_entries filename_to_meta saved where h:
    "safe_json_loads example_env (get_field_value example_row ''SHELF_TAGS_IMAGES_URL'') world0
       = (Inr (JList items), w1)"
    "download_bytes example_env
       (strip (case get_field_value example_row ''SHELF_TAGS'' of None \<Rightarrow> [] | Some u \<Rightarrow> u))
       default_max_retries w1 = (Inr (Some zip_bytes), w2)"
    "extract_zip_entries example_env zip_bytes = Inr zip_entries"
    "build_filename_to_meta [] items = Inr filename_to_meta"
    "saved = saved_of zip_entries filename_to_meta (sorted_filenames filename_to_meta)"
    "appended (snd res) = appended world0 @ saved_lines ''out/metadata.txt'' saved"
    "(\<forall>(img, barcode, source) \<in> set saved.
               CHR 0x0A \<notin> set barcode \<and> CHR 0x0A \<notin> set source)
             \<longrightarrow> line_count (concat (map snd (saved_lines ''out/metadata.txt'' saved)))
                   = length saved"
    by blast
  have items: "items = example_items" and w1: "w1 = world0"
    using h(1) by (simp_all add: ex_blob ex_loads)
  have zb: "zip_bytes = [80, 75]"
    using h(2) unfolding w1
    by (simp add: ex_url ex_strip_url ex_download example_env_def)
  have ze: "zip_entries = [(''img_2.jpg'', [2]), (''img_10.jpg'', [10]), (''cover.jpg'', [7])]"
    using h(3) unfolding zb by (simp add: ex_zip)
  have fm: "filename_to_meta =
     [(''img_10.jpg'', ''4006381333931'', ''ocr''), (''cover.jpg'', ''12345'', ''''),
      (''img_2.jpg'', ''0012'', ''scanner'')]"
    using h(4) unfolding items by (simp add: ex_build)
  have saved: "saved = [([2], ''0012'', ''scanner''), ([10], ''4006381333931'', ''ocr''),
                        ([7], ''12345'', '''')]"
    unfolding h(5) fm ex_sorted ze by (simp add: saved_of_def)
  have "line_count (concat (map snd (saved_lines ''out/metadata.txt'' saved))) = length saved"
    using h(7) unfolding saved by simp
  then have "line_count (concat (map snd (appended (snd res)))) = 3"
    unfolding h(6) by (simp add: world0_def saved)
  with f len show ?thesis unfolding res_def by simp
qed

text \<open>
  The restriction is needed: a source with a line break inside it (surrounding
  whitespace is stripped, inner whitespace is kept) gives one image and two lines.
\<close>

theorem newline_in_source_counterexample:
  "process_shelf_tags_row newline_env (row_with_json newline_json) ''SHELF_TAGS''
       ''SHELF_TAGS_IMAGES_URL'' 0 ''out'' ''out/metadata.txt'' world0
     = (Inr 1,
        world0\<lparr>requests := 1,
               written := [(''out/1.heif'', [1])],
               appended := [(''out/metadata.txt'', ''123, a'' @ [CHR 0x0A] @ ''b'' @ [CHR 0x0A])]\<rparr>) \<and>
   line_count (''123, a'' @ [CHR 0x0A] @ ''b'' @ [CHR 0x0A]) = 2"
proof -
  define obj where "obj = tagged_object ''a.jpg'' (JStr ''123'') (JStr (''a'' @ [CHR 0x0A] @ ''b''))"
  have nz: "newline_json \<noteq> []" "newline_json \<noteq> ''[]''" by (simp_all add: newline_json_def)
  have loads: "safe_json_loads newline_env (Some newline_json) world0 = (Inr (JList [obj]), world0)"
    using nz by (simp add: safe_json_loads_def newline_strip newline_env_def obj_def)
  have dl: "download_bytes newline_env ''http://x/a.zip'' default_max_retries world0
     = (Inr (Some [80, 75]), world0\<lparr>requests := Suc (requests world0)\<rparr>)"
    by (rule ex_download) (simp add: newline_env_def example_env_def)
  have zp: "extract_zip_entries newline_env [80, 75] = Inr [(''a.jpg'', [1])]"
    by (simp add: extract_zip_entries_def newline_env_def basename_def)
  have bd: "build_filename_to_meta [] [obj] = Inr [(''a.jpg'', ''123'', [CHR ''a'', CHR 0x0A, CHR ''b''])]"
    by (simp add: obj_def tagged_object_def meta_step_def dict_get_def py_or_def py_str_def Let_def
          string_eval)
  have st: "sorted_filenames [(''a.jpg'', ''123'', [CHR ''a'', CHR 0x0A, CHR ''b''])] = [''a.jpg'']"
    by (simp add: sorted_filenames_def)
  have sv: "save_images newline_env ''out'' ''out/metadata.txt'' [(''a.jpg'', [1])]
       [(''a.jpg'', ''123'', [CHR ''a'', CHR 0x0A, CHR ''b''])] [''a.jpg''] 0
       (world0\<lparr>requests := Suc (requests world0)\<rparr>)
     = (Inr 1,
        world0\<lparr>requests := 1,
               written := [(''out/1.heif'', [1])],
               appended := [(''out/metadata.txt'', ''123, a'' @ [CHR 0x0A] @ ''b'' @ [CHR 0x0A])]\<rparr>)"
    by (simp add: newline_env_def example_env_def world0_def path_join_def Let_def string_eval)
  have oa: "open_append newline_env w p" for w p
    by (simp add: newline_env_def example_env_def)
  have fs: "fetch_and_save newline_env ''http://x/a.zip'' [obj] 0 ''out'' ''out/metadata.txt'' world0
     = (Inr 1,
        world0\<lparr>requests := 1,
               written := [(''out/1.heif'', [1])],
               appended := [(''out/metadata.txt'', ''123, a'' @ [CHR 0x0A] @ ''b'' @ [CHR 0x0A])]\<rparr>)"
    by (simp add: fetch_and_save_def dl zp bd st sv oa
          del: save_images.simps build_filename_to_meta.simps)
  have "process_shelf_tags_row newline_env (row_with_json newline_json) ''SHELF_TAGS''
       ''SHELF_TAGS_IMAGES_URL'' 0 ''out'' ''out/metadata.txt'' world0
     = (Inr 1,
        world0\<lparr>requests := 1,
               written := [(''out/1.heif'', [1])],
               appended := [(''out/metadata.txt'', ''123, a'' @ [CHR 0x0A] @ ''b'' @ [CHR 0x0A])]\<rparr>)"
    using fs
    by (simp add: process_shelf_tags_row_def row_with_json_def get_field_value_def loads
          strip_def is_space_def)
  moreover have "line_count (''123, a'' @ [CHR 0x0A] @ ''b'' @ [CHR 0x0A]) = 2"
    by (simp add: line_count_def)
  ultimately show ?thesis by simp
qed

subsection \<open>Image names never repeat\<close>

text \<open>
  Claim C8. A call of the row processor that starts at counter \<open>s\<close> and returns
  \<open>c_end\<close> writes exactly the files \<^verbatim>\<open><n>.heif\<close> for \<open>n = s + 1, ..., c_end\<close>, in
  increasing order of \<open>n\<close>. Take two runs in neither of which a row raises after it has
  written a file. If the first reports the final counter \<open>c1\<close>, it has written the names
  numbered from its start value plus one up to \<open>c1\<close>; the second, started at \<open>c1\<close> with
  the same output directory, writes the names numbered \<open>c1 + 1\<close> to some \<open>c2\<close>, and all
  those names together are pairwise different: the second run overwrites no file of the
  first. No row raises after writing a file when every write of an image, every
  write of a metadata line and every close of the metadata file succeeds.
\<close>

theorem image_names_increase:
  "(process_shelf_tags_row env row zf jf s out mp w = (Inr c_end, w') \<longrightarrow>
      s \<le> c_end \<and>
      map fst (written w') =
        map fst (written w) @ map (\<lambda>n. path_join out (str_of_int n @ ''.heif'')) [s + 1..c_end])
   \<and>
   (main env1 a1 rows1 w0 = w1 \<and> last (logged w1) = (INFO, Done c1) \<and>
    args_out a2 = args_out a1 \<and> args_start a2 = c1 \<and> main env2 a2 rows2 w1 = w2 \<and>
    run_atomic env1 a1 rows1 w0 \<and> run_atomic env2 a2 rows2 w1 \<longrightarrow>
      (\<exists>c2. args_start a1 \<le> c1 \<and> c1 \<le> c2 \<and>
         map fst (written w1) = map fst (written w0) @
           map (\<lambda>n. path_join (args_out a1) (str_of_int n @ ''.heif'')) [args_start a1 + 1..c1] \<and>
         map fst (written w2) = map fst (written w1) @
           map (\<lambda>n. path_join (args_out a1) (str_of_int n @ ''.heif'')) [c1 + 1..c2] \<and>
         distinct (map (\<lambda>n. path_join (args_out a1) (str_of_int n @ ''.heif''))
                    [args_start a1 + 1..c2])))
   \<and>
   ((\<forall>w p b. write_file env0 w p b = Written) \<and> (\<forall>w p t. append_text env0 w p t) \<and>
    (\<forall>w p. close_append env0 w p) \<longrightarrow>
      run_atomic env0 a0 rows0 w0')"
proof (intro conjI impI)
  assume "process_shelf_tags_row env row zf jf s out mp w = (Inr c_end, w')"
  from process_names[OF this]
  show "s \<le> c_end"
    and "map fst (written w') =
        map fst (written w) @ map (\<lambda>n. path_join out (str_of_int n @ ''.heif'')) [s + 1..c_end]"
    by (simp_all add: heif_path_def[abs_def])
next
  let ?name = "\<lambda>n. path_join (args_out a1) (str_of_int n @ ''.heif'')"
  have name: "?name = heif_path (args_out a1)" by (simp add: heif_path_def[abs_def])
  assume h: "main env1 a1 rows1 w0 = w1 \<and> last (logged w1) = (INFO, Done c1) \<and>
    args_out a2 = args_out a1 \<and> args_start a2 = c1 \<and> main env2 a2 rows2 w1 = w2 \<and>
    run_atomic env1 a1 rows1 w0 \<and> run_atomic env2 a2 rows2 w1"
  have ne: "rows1 \<noteq> []"
  proof
    assume "rows1 = []"
    with h have "last (logged w1) = (WARNING, NoRows)" by (auto simp: main_def Let_def)
    with h show False by simp
  qed
  from main_names[OF _ ne, of env1 a1 w0 w1] h
  have r1: "args_start a1 \<le> c1"
    "map fst (written w1) = map fst (written w0) @ map ?name [args_start a1 + 1..c1]"
    by (auto simp: name)
  have "\<exists>c2. c1 \<le> c2 \<and> map fst (written w2) = map fst (written w1) @ map ?name [c1 + 1..c2]"
  proof (cases "rows2 = []")
    case True
    with h have "written w2 = written w1" by (auto simp: main_def Let_def)
    then show ?thesis by (intro exI[of _ c1]) simp
  next
    case False
    from main_names[OF _ False, of env2 a2 w1 w2] h show ?thesis by (auto simp: name)
  qed
  then obtain c2 where r2: "c1 \<le> c2"
    "map fst (written w2) = map fst (written w1) @ map ?name [c1 + 1..c2]" by blast
  have "distinct (map ?name [args_start a1 + 1..c2])"
    unfolding name by (rule distinct_heif_paths)
  with r1 r2 show "\<exists>c2. args_start a1 \<le> c1 \<and> c1 \<le> c2 \<and>
         map fst (written w1) = map fst (written w0) @ map ?name [args_start a1 + 1..c1] \<and>
         map fst (written w2) = map fst (written w1) @ map ?name [c1 + 1..c2] \<and>
         distinct (map ?name [args_start a1 + 1..c2])"
    by blast
next
  assume "(\<forall>w p b. write_file env0 w p b = Written) \<and> (\<forall>w p t. append_text env0 w p t) \<and>
    (\<forall>w p. close_append env0 w p)"
  then show "run_atomic env0 a0 rows0 w0'"
    using run_atomic_total_env by blast
qed

theorem image_names_increase_witness:
  "map fst (written (snd (process_shelf_tags_row example_env example_row ''SHELF_TAGS''
       ''SHELF_TAGS_IMAGES_URL'' 0 ''out'' ''out/metadata.txt'' world0)))
     = map (\<lambda>n. path_join ''out'' (str_of_int n @ ''.heif'')) [1..3]
   \<and>
   run_atomic example_env example_args [example_row] world0
   \<and>
   (\<exists>c2. 3 \<le> c2 \<and>
      map fst (written (main example_env (example_args\<lparr>args_start := 3\<rparr>) [example_row]
                         (main example_env example_args [example_row] world0)))
        = map fst (written (main example_env example_args [example_row] world0))
          @ map (\<lambda>n. path_join ''out'' (str_of_int n @ ''.heif'')) [4..c2] \<and>
      distinct (map (\<lambda>n. path_join ''out'' (str_of_int n @ ''.heif'')) [1..c2]))"
proof -
  define res where "res = process_shelf_tags_row example_env example_row ''SHELF_TAGS''
       ''SHELF_TAGS_IMAGES_URL'' 0 ''out'' ''out/metadata.txt'' world0"
  define w1 where "w1 = main example_env example_args [example_row] world0"
  define w2 where "w2 = main example_env (example_args\<lparr>args_start := 3\<rparr>) [example_row] w1"
  have "fst res = Inr 3" unfolding res_def by (simp add: example_env_run)
  then have run: "process_shelf_tags_row example_env example_row ''SHELF_TAGS''
       ''SHELF_TAGS_IMAGES_URL'' 0 ''out'' ''out/metadata.txt'' world0 = (Inr 3, snd res)"
    unfolding res_def by (metis prod.collapse)
  have l1: "last (logged w1) = (INFO, Done 3)"
    unfolding w1_def by (simp add: ex_main example_args_def)
  have tot: "(\<forall>w p b. write_file example_env w p b = Written) \<and>
             (\<forall>w p t. append_text example_env w p t) \<and>
             (\<forall>w p. close_append example_env w p)"
    by (simp add: example_env_def)
  note at = image_names_increase[THEN conjunct2, THEN conjunct2, THEN mp, OF tot]
  have hyp: "main example_env example_args [example_row] world0 = w1 \<and>
      last (logged w1) = (INFO, Done 3) \<and>
      args_out (example_args\<lparr>args_start := 3\<rparr>) = args_out example_args \<and>
      args_start (example_args\<lparr>args_start := 3\<rparr>) = 3 \<and>
      main example_env (example_args\<lparr>args_start := 3\<rparr>) [example_row] w1 = w2 \<and>
      run_atomic example_env example_args [example_row] world0 \<and>
      run_atomic example_env (example_args\<lparr>args_start := 3\<rparr>) [example_row] w1"
    using l1 at by (simp add: w1_def w2_def)
  note inst = image_names_increase[of example_env example_row "''SHELF_TAGS''"
      "''SHELF_TAGS_IMAGES_URL''" 0 "''out''" "''out/metadata.txt''" world0 3 "snd res"
      example_env example_args "[example_row]" world0 w1 3 "example_args\<lparr>args_start := 3\<rparr>"
      example_env "[example_row]" w2]
  from inst[THEN conjunct1] run have a: "map fst (written (snd res))
     = map fst (written world0) @ map (\<lambda>n. path_join ''out'' (str_of_int n @ ''.heif'')) [0 + 1..3]"
    by blast
  from inst[THEN conjunct2, THEN conjunct1, THEN mp, OF hyp]
  have "\<exists>c2. args_start example_args \<le> 3 \<and> 3 \<le> c2 \<and>
         map fst (written w1) = map fst (written world0) @
           map (\<lambda>n. path_join (args_out example_args) (str_of_int n @ ''.heif''))
             [args_start example_args + 1..3] \<and>
         map fst (written w2) = map fst (written w1) @
           map (\<lambda>n. path_join (args_out example_args) (str_of_int n @ ''.heif'')) [3 + 1..c2] \<and>
         distinct (map (\<lambda>n. path_join (args_out example_args) (str_of_int n @ ''.heif''))
                    [args_start example_args + 1..c2])" .
  then have b: "\<exists>c2. 3 \<le> c2 \<and>
         map fst (written w2) = map fst (written w1) @
           map (\<lambda>n. path_join ''out'' (str_of_int n @ ''.heif'')) [4..c2] \<and>
         distinct (map (\<lambda>n. path_join ''out'' (str_of_int n @ ''.heif'')) [1..c2])"
    by (auto simp: example_args_def)
  from a b at show ?thesis
    unfolding res_def w1_def w2_def by (simp add: world0_def)
qed

lemma blocked_row_run:
  "process_shelf_tags_row blocked_env example_row ''SHELF_TAGS'' ''SHELF_TAGS_IMAGES_URL'' 0
      ''out'' ''out/metadata.txt'' w
   = (Inl OSError,
      w\<lparr>requests := Suc (requests w),
        written := written w @ [(''out/1.heif'', [2]), (''out/2.heif'', [10])],
        appended := appended w @ [(''out/metadata.txt'', meta_line ''0012'' ''scanner''),
                                  (''out/metadata.txt'', meta_line ''4006381333931'' ''ocr'')]\<rparr>)"
proof -
  obtain x xs where it: "example_items = x # xs"
    using ex_items_nonempty by (cases example_items) auto
  have dl: "download_bytes blocked_env ''http://x/a.zip'' default_max_retries w
     = (Inr (Some [80, 75]), w\<lparr>requests := Suc (requests w)\<rparr>)"
    by (rule ex_download) (simp add: blocked_env_def example_env_def)
  have zp: "extract_zip_entries blocked_env [80, 75]
     = Inr [(''img_2.jpg'', [2]), (''img_10.jpg'', [10]), (''cover.jpg'', [7])]"
    by (rule ex_zip) (simp add: blocked_env_def)
  have sv: "save_images blocked_env ''out'' ''out/metadata.txt''
      [(''img_2.jpg'', [2]), (''img_10.jpg'', [10]), (''cover.jpg'', [7])]
      [(''img_10.jpg'', ''4006381333931'', ''ocr''), (''cover.jpg'', ''12345'', ''''),
       (''img_2.jpg'', ''0012'', ''scanner'')]
      [''img_2.jpg'', ''img_10.jpg'', ''cover.jpg''] 0 w0
   = (Inl OSError,
      w0\<lparr>written := written w0 @ [(''out/1.heif'', [2]), (''out/2.heif'', [10])],
        appended := appended w0 @ [(''out/metadata.txt'', meta_line ''0012'' ''scanner''),
                                  (''out/metadata.txt'', meta_line ''4006381333931'' ''ocr'')]\<rparr>)" for w0
    by (simp add: blocked_env_def example_env_def path_join_def Let_def meta_line_def string_eval)
  have oa: "open_append blocked_env w0 p" for w0 p
    by (simp add: blocked_env_def example_env_def)
  have "fetch_and_save blocked_env ''http://x/a.zip'' example_items 0 ''out'' ''out/metadata.txt'' w
     = (Inl OSError,
      w\<lparr>requests := Suc (requests w),
        written := written w @ [(''out/1.heif'', [2]), (''out/2.heif'', [10])],
        appended := appended w @ [(''out/metadata.txt'', meta_line ''0012'' ''scanner''),
                                  (''out/metadata.txt'', meta_line ''4006381333931'' ''ocr'')]\<rparr>)"
    by (simp add: fetch_and_save_def dl zp ex_build ex_sorted sv oa del: save_images.simps)
  moreover have "json_loads blocked_env = json_loads example_env" by (simp add: blocked_env_def)
  ultimately show ?thesis
    by (simp add: process_shelf_tags_row_def ex_url ex_blob ex_strip_url ex_loads it)
qed


lemma blocked_main:
  "main blocked_env example_args [example_row] w
     = w\<lparr>requests := Suc (requests w),
         logged := logged w @ [(INFO, Loaded 1), (ERROR, RowError 0 OSError), (INFO, Done 0)],
         written := written w @ [(''out/1.heif'', [2]), (''out/2.heif'', [10])],
         appended := appended w @ [(''out/metadata.txt'', meta_line ''0012'' ''scanner''),
                                  (''out/metadata.txt'', meta_line ''4006381333931'' ''ocr'')]\<rparr>"
  by (simp add: main_def example_args_def blocked_row_run add_log_def path_join_def Let_def)

text \<open>
  Without the condition the names repeat. The image is written before its metadata line,
  and the driver keeps the counter of before a row that raised: when the third image of
  a row cannot be written, the run reports the final counter 0 with \<^verbatim>\<open>1.heif\<close> and
  \<^verbatim>\<open>2.heif\<close> written, and both a second run started at 0 and a second row of the same
  run write \<^verbatim>\<open>1.heif\<close> and \<^verbatim>\<open>2.heif\<close> again.
\<close>


theorem failed_write_counterexample:
  "last (logged (main blocked_env example_args [example_row] world0)) = (INFO, Done 0) \<and>
   map fst (written (main blocked_env example_args [example_row] world0))
     = [''out/1.heif'', ''out/2.heif''] \<and>
   args_start example_args = 0 \<and>
   map fst (written (main blocked_env example_args [example_row]
                       (main blocked_env example_args [example_row] world0)))
     = [''out/1.heif'', ''out/2.heif'', ''out/1.heif'', ''out/2.heif''] \<and>
   map fst (written (main blocked_env example_args [example_row, example_row] world0))
     = [''out/1.heif'', ''out/2.heif'', ''out/1.heif'', ''out/2.heif''] \<and>
   \<not> run_atomic blocked_env example_args [example_row] world0"
proof -
  have two: "main blocked_env example_args [example_row, example_row] world0
     = world0\<lparr>requests := 2,
         logged := [(INFO, Loaded 2), (ERROR, RowError 0 OSError), (ERROR, RowError 1 OSError),
                    (INFO, Done 0)],
         written := [(''out/1.heif'', [2]), (''out/2.heif'', [10]),
                     (''out/1.heif'', [2]), (''out/2.heif'', [10])],
         appended := [(''out/metadata.txt'', meta_line ''0012'' ''scanner''),
                      (''out/metadata.txt'', meta_line ''4006381333931'' ''ocr''),
                      (''out/metadata.txt'', meta_line ''0012'' ''scanner''),
                      (''out/metadata.txt'', meta_line ''4006381333931'' ''ocr'')]\<rparr>"
    by (simp add: main_def example_args_def blocked_row_run add_log_def path_join_def Let_def
          world0_def)
  have na: "\<not> run_atomic blocked_env example_args [example_row] world0"
    by (simp add: run_atomic_def example_args_def blocked_row_run add_log_def path_join_def
          world0_def)
  show ?thesis
    by (simp add: blocked_main two na) (simp add: world0_def example_args_def)
qed

subsection \<open>The remote fetcher\<close>

lemma download_attempts_bound:
  "download_attempts env url mr as le w = (r, w') \<Longrightarrow>
     requests w \<le> requests w' \<and> requests w' \<le> requests w + length as"
proof (induction as arbitrary: le w)
  case Nil
  then show ?case by (auto split: option.splits)
next
  case (Cons a as)
  show ?case
  proof (cases "urlopen env (requests w) url")
    case (Body b)
    with Cons.prems show ?thesis by (auto simp: Let_def)
  next
    case (Failed e)
    with Cons.prems Cons.IH show ?thesis by (fastforce simp: Let_def)
  next
    case Raised
    with Cons.prems show ?thesis by (auto simp: Let_def)
  qed
qed

lemma download_attempts_success:
  "k < length as \<Longrightarrow> \<forall>i<k. \<exists>e. urlopen env (requests w + i) url = Failed e \<Longrightarrow>
   urlopen env (requests w + k) url = Body b \<Longrightarrow>
   download_attempts env url mr as le w = (r, w') \<Longrightarrow>
     r = Inr (Some b) \<and> requests w' = requests w + k + 1 \<and>
     slept w' = slept w @ map backoff (take k as)"
proof (induction as arbitrary: k le w)
  case Nil
  then show ?case by simp
next
  case (Cons a as)
  show ?case
  proof (cases k)
    case 0
    with Cons.prems show ?thesis by (auto simp: Let_def)
  next
    case (Suc k')
    with Cons.prems(2) obtain e where e: "urlopen env (requests w) url = Failed e"
      by (metis add_0_right zero_less_Suc)
    define w1 where "w1 = (add_log WARNING (DownloadFailed a mr url e)
        (w\<lparr>requests := Suc (requests w)\<rparr>))\<lparr>slept := slept w @ [backoff a]\<rparr>"
    have rq: "requests w1 = Suc (requests w)" and sl: "slept w1 = slept w @ [backoff a]"
      by (simp_all add: w1_def)
    from Cons.prems(4) e have run: "download_attempts env url mr as (Some e) w1 = (r, w')"
      by (simp add: Let_def w1_def backoff_def)
    have "k' < length as" using Cons.prems(1) Suc by simp
    moreover have "\<forall>i<k'. \<exists>e. urlopen env (requests w1 + i) url = Failed e"
      using Cons.prems(2) Suc rq by (metis Suc_less_eq add_Suc_shift)
    moreover have "urlopen env (requests w1 + k') url = Body b"
      using Cons.prems(3) Suc rq by simp
    ultimately have "r = Inr (Some b) \<and> requests w' = requests w1 + k' + 1 \<and>
        slept w' = slept w1 @ map backoff (take k' as)"
      using run by (rule Cons.IH)
    with Suc rq sl show ?thesis by simp
  qed
qed

lemma download_attempts_exhausted:
  "\<forall>i<length as. \<exists>e. urlopen env (requests w + i) url = Failed e \<Longrightarrow>
   download_attempts env url mr as le w = (r, w') \<Longrightarrow>
     r = Inr None \<and> requests w' = requests w + length as \<and>
     slept w' = slept w @ map backoff as"
proof (induction as arbitrary: le w)
  case Nil
  then show ?case by (auto split: option.splits)
next
  case (Cons a as)
  from Cons.prems(1) obtain e where e: "urlopen env (requests w) url = Failed e"
    by (metis add_0_right length_greater_0_conv list.distinct(1))
  define w1 where "w1 = (add_log WARNING (DownloadFailed a mr url e)
      (w\<lparr>requests := Suc (requests w)\<rparr>))\<lparr>slept := slept w @ [backoff a]\<rparr>"
  have rq: "requests w1 = Suc (requests w)" and sl: "slept w1 = slept w @ [backoff a]"
    by (simp_all add: w1_def)
  from Cons.prems(2) e have run: "download_attempts env url mr as (Some e) w1 = (r, w')"
    by (simp add: Let_def w1_def backoff_def)
  have "\<forall>i<length as. \<exists>e. urlopen env (requests w1 + i) url = Failed e"
    using Cons.prems(1) rq by (metis Suc_less_eq add_Suc_shift length_Cons)
  from Cons.IH[OF this run] rq sl show ?case by simp
qed

lemma take_upto: "take k [a..b] = [a..min b (a + int k - 1)]"
proof (induction k arbitrary: a)
  case 0
  then show ?case by simp
next
  case (Suc k)
  show ?case
  proof (cases "a \<le> b")
    case True
    then have "[a..b] = a # [a + 1..b]" by (simp add: upto_rec1)
    moreover have "[a..min b (a + int (Suc k) - 1)] = a # [a + 1..min b (a + int (Suc k) - 1)]"
      using True by (simp add: upto_rec1)
    moreover have "min b (a + int (Suc k) - 1) = min b (a + 1 + int k - 1)" by simp
    ultimately show ?thesis using Suc.IH[of "a + 1"] by simp
  next
    case False
    then show ?thesis by simp
  qed
qed

text \<open>
  Claim C6. The fetcher makes at most \<^verbatim>\<open>max_retries\<close> requests (3 by default). If the
  first \<open>k < max_retries\<close> requests fail with one of the errors it catches
  (\<^verbatim>\<open>HTTPError\<close>, \<^verbatim>\<open>URLError\<close>, \<^verbatim>\<open>TimeoutError\<close>) and the next one succeeds, it returns the
  bytes of that request after \<open>k + 1\<close> requests, having slept \<open>min (2 ^ attempt) 10\<close>
  seconds after each of the failed attempts \<open>1, ..., k\<close>. If all \<^verbatim>\<open>max_retries\<close> requests
  fail so, it returns \<^verbatim>\<open>None\<close> (it does not raise), having slept after every attempt,
  the last one included.
\<close>

theorem download_bytes_retries:
  assumes "download_bytes env url max_retries w = (r, w')"
  shows "default_max_retries = 3 \<and>
    requests w' \<le> requests w + nat max_retries \<and>
    (k < nat max_retries \<and> (\<forall>i<k. \<exists>e. urlopen env (requests w + i) url = Failed e) \<and>
       urlopen env (requests w + k) url = Body b \<longrightarrow>
         r = Inr (Some b) \<and> requests w' = requests w + k + 1 \<and>
         slept w' = slept w @ map (\<lambda>attempt. min (2 ^ nat attempt) 10) [1..int k]) \<and>
    ((\<forall>i<nat max_retries. \<exists>e. urlopen env (requests w + i) url = Failed e) \<longrightarrow>
         r = Inr None \<and> requests w' = requests w + nat max_retries \<and>
         slept w' = slept w @ map (\<lambda>attempt. min (2 ^ nat attempt) 10) [1..max_retries])"
proof -
  have bo: "(\<lambda>attempt. min (2 ^ nat attempt) 10) = backoff"
    by (simp add: backoff_def fun_eq_iff)
  have len: "length [1..max_retries] = nat max_retries" by simp
  from assms have run: "download_attempts env url max_retries [1..max_retries] None w = (r, w')"
    by (simp add: download_bytes_def)
  have a: "requests w' \<le> requests w + nat max_retries"
    using download_attempts_bound[OF run] len by simp
  have b: "r = Inr (Some b) \<and> requests w' = requests w + k + 1 \<and>
         slept w' = slept w @ map backoff [1..int k]"
    if h: "k < nat max_retries \<and> (\<forall>i<k. \<exists>e. urlopen env (requests w + i) url = Failed e) \<and>
       urlopen env (requests w + k) url = Body b"
  proof -
    from h have "k < length [1..max_retries]" using len by simp
    from download_attempts_success[OF this _ _ run, of b] h
    have "r = Inr (Some b) \<and> requests w' = requests w + k + 1 \<and>
       slept w' = slept w @ map backoff (take k [1..max_retries])" by blast
    moreover have "int k < max_retries" using h by linarith
    then have "take k [1..max_retries] = [1..int k]"
      by (simp add: take_upto)
    ultimately show ?thesis by simp
  qed
  have c: "r = Inr None \<and> requests w' = requests w + nat max_retries \<and>
         slept w' = slept w @ map backoff [1..max_retries]"
    if h: "\<forall>i<nat max_retries. \<exists>e. urlopen env (requests w + i) url = Failed e"
  proof -
    from h have "\<forall>i<length [1..max_retries]. \<exists>e. urlopen env (requests w + i) url = Failed e"
      using len by simp
    from download_attempts_exhausted[OF this run] len show ?thesis by simp
  qed
  from a b c show ?thesis unfolding bo by (simp add: default_max_retries_def)
qed

theorem download_bytes_retries_witness:
  "fst (download_bytes flaky_env ''http://x/a.zip'' 3 world0) = Inr (Some [80, 75]) \<and>
   requests (snd (download_bytes flaky_env ''http://x/a.zip'' 3 world0)) = 3 \<and>
   slept (snd (download_bytes flaky_env ''http://x/a.zip'' 3 world0)) = [2, 4] \<and>
   fst (download_bytes down_env ''http://x/a.zip'' 3 world0) = Inr None \<and>
   requests (snd (download_bytes down_env ''http://x/a.zip'' 3 world0)) = 3 \<and>
   slept (snd (download_bytes down_env ''http://x/a.zip'' 3 world0)) = [2, 4, 8]"
proof -
  have f: "2 < nat 3 \<and> (\<forall>i<2. \<exists>e. urlopen flaky_env (requests world0 + i) ''http://x/a.zip'' = Failed e) \<and>
       urlopen flaky_env (requests world0 + 2) ''http://x/a.zip'' = Body [80, 75]"
    by (simp add: flaky_env_def world0_def)
  have d: "\<forall>i<nat 3. \<exists>e. urlopen down_env (requests world0 + i) ''http://x/a.zip'' = Failed e"
    by (simp add: down_env_def)
  have up: "[1..2] = [1, 2::int]" "[1..3] = [1, 2, 3::int]"
    by (simp_all add: upto_rec1)
  from download_bytes_retries[OF surjective_pairing, THEN conjunct2,
      of flaky_env "''http://x/a.zip''" 3 world0 2 "[80, 75]"] f
  have 1: "fst (download_bytes flaky_env ''http://x/a.zip'' 3 world0) = Inr (Some [80, 75]) \<and>
   requests (snd (download_bytes flaky_env ''http://x/a.zip'' 3 world0)) = 3 \<and>
   slept (snd (download_bytes flaky_env ''http://x/a.zip'' 3 world0)) = [2, 4]"
    by (simp add: world0_def up)
  from download_bytes_retries[OF surjective_pairing, THEN conjunct2,
      of down_env "''http://x/a.zip''" 3 world0] d
  have 2: "fst (download_bytes down_env ''http://x/a.zip'' 3 world0) = Inr None \<and>
   requests (snd (download_bytes down_env ''http://x/a.zip'' 3 world0)) = 3 \<and>
   slept (snd (download_bytes down_env ''http://x/a.zip'' 3 world0)) = [2, 4, 8]"
    by (simp add: world0_def up)
  from 1 2 show ?thesis by simp
qed

text \<open>
  The restriction to the caught errors is needed: a request that dies with another
  exception (a connection the server closes without an answer, say) makes the fetcher
  raise at once, with no wait and no second attempt, although the next request would
  have been answered.
\<close>

theorem uncaught_fetch_error_counterexample:
  "download_bytes hiccup_env ''http://x/a.zip'' 3 world0
     = (Inl UncaughtFetchError, world0\<lparr>requests := 1\<rparr>) \<and>
   slept (snd (download_bytes hiccup_env ''http://x/a.zip'' 3 world0)) = [] \<and>
   urlopen hiccup_env 1 ''http://x/a.zip'' = Body [80, 75]"
  by (simp add: download_bytes_def hiccup_env_def example_env_def world0_def upto_rec1 Let_def)

subsection \<open>Field lookup\<close>

lemma first_normalized_found:
  "\<forall>kv \<in> set pre. normalize_field_name (fst kv) \<noteq> d \<Longrightarrow> normalize_field_name k = d \<Longrightarrow>
     first_normalized (pre @ (k, v) # post) d = v"
  by (induction pre) auto

lemma first_normalized_none:
  "\<forall>kv \<in> set row. normalize_field_name (fst kv) \<noteq> d \<Longrightarrow> first_normalized row d = None"
  by (induction row) auto

text \<open>
  Claim C7. \<^verbatim>\<open>get_field_value\<close> returns the value under the exact key when the row has
  it. When the row has no such key, it returns the value of the first key (in column
  order) whose name with all whitespace removed equals the desired name with all
  whitespace removed, and \<^verbatim>\<open>None\<close> when there is no such key.
\<close>

theorem get_field_value_lookup:
  "(map_of row desired_field = Some v \<longrightarrow> get_field_value row desired_field = v) \<and>
   (desired_field \<notin> fst ` set row \<and> row = pre @ (k, v) # post \<and>
    normalize_field_name k = normalize_field_name desired_field \<and>
    (\<forall>kv \<in> set pre. normalize_field_name (fst kv) \<noteq> normalize_field_name desired_field)
      \<longrightarrow> get_field_value row desired_field = v) \<and>
   ((\<forall>kv \<in> set row. normalize_field_name (fst kv) \<noteq> normalize_field_name desired_field)
      \<longrightarrow> get_field_value row desired_field = None) \<and>
   normalize_field_name name = filter (\<lambda>c. \<not> is_space c) name"
proof (intro conjI impI)
  assume "map_of row desired_field = Some v"
  then show "get_field_value row desired_field = v" by (simp add: get_field_value_def)
next
  assume h: "desired_field \<notin> fst ` set row \<and> row = pre @ (k, v) # post \<and>
    normalize_field_name k = normalize_field_name desired_field \<and>
    (\<forall>kv \<in> set pre. normalize_field_name (fst kv) \<noteq> normalize_field_name desired_field)"
  then have "desired_field \<notin> fst ` set row" by blast
  then have "map_of row desired_field = None" by (simp add: map_of_eq_None_iff)
  then have g: "get_field_value row desired_field
                  = first_normalized row (normalize_field_name desired_field)"
    by (simp add: get_field_value_def)
  from h have "first_normalized (pre @ (k, v) # post) (normalize_field_name desired_field) = v"
    by (intro first_normalized_found) blast+
  with h g show "get_field_value row desired_field = v" by metis
next
  assume h: "\<forall>kv \<in> set row. normalize_field_name (fst kv) \<noteq> normalize_field_name desired_field"
  then have "desired_field \<notin> fst ` set row" by auto
  then have "map_of row desired_field = None" by (simp add: map_of_eq_None_iff)
  with h show "get_field_value row desired_field = None"
    by (simp add: get_field_value_def first_normalized_none)
next
  show "normalize_field_name name = filter (\<lambda>c. \<not> is_space c) name"
    by (simp add: normalize_field_name_def)
qed

theorem get_field_value_lookup_witness:
  "get_field_value example_row ''STORE'' = Some ''17'' \<and>
   get_field_value example_row ''SHELF_TAGS'' = Some '' http://x/a.zip'' \<and>
   get_field_value example_row ''BARCODE'' = None"
proof -
  have n: "normalize_field_name ''STORE'' = ''STORE''"
    "normalize_field_name ''SHELF_TAGS '' = ''SHELF_TAGS''"
    "normalize_field_name ''SHELF_TAGS'' = ''SHELF_TAGS''"
    "normalize_field_name ''SHELF_TAGS_IMAGES_URL'' = ''SHELF_TAGS_IMAGES_URL''"
    "normalize_field_name ''BARCODE'' = ''BARCODE''"
    by (simp_all add: normalize_field_name_def is_space_def)
  have 1: "map_of example_row ''STORE'' = Some (Some ''17'')"
    by (simp add: example_row_def)
  have 2: "''SHELF_TAGS'' \<notin> fst ` set example_row \<and>
      example_row = [(''STORE'', Some ''17'')] @ (''SHELF_TAGS '', Some '' http://x/a.zip'')
                      # [(''SHELF_TAGS_IMAGES_URL'', Some example_json)] \<and>
      normalize_field_name ''SHELF_TAGS '' = normalize_field_name ''SHELF_TAGS'' \<and>
      (\<forall>kv \<in> set [(''STORE'', Some ''17'')].
          normalize_field_name (fst kv) \<noteq> normalize_field_name ''SHELF_TAGS'')"
    by (simp add: example_row_def n)
  have 3: "\<forall>kv \<in> set example_row. normalize_field_name (fst kv) \<noteq> normalize_field_name ''BARCODE''"
    by (simp add: example_row_def n)
  from get_field_value_lookup[of example_row "''STORE''" "Some ''17''"] 1
  have a: "get_field_value example_row ''STORE'' = Some ''17''" by blast
  from get_field_value_lookup[of example_row "''SHELF_TAGS''" "Some '' http://x/a.zip''"
      "[(''STORE'', Some ''17'')]" "''SHELF_TAGS ''" "[(''SHELF_TAGS_IMAGES_URL'', Some example_json)]"] 2
  have b: "get_field_value example_row ''SHELF_TAGS'' = Some '' http://x/a.zip''" by blast
  from get_field_value_lookup[of example_row "''BARCODE''"] 3
  have c: "get_field_value example_row ''BARCODE'' = None" by blast
  from a b c show ?thesis by simp
qed

subsection \<open>The driver isolates a failing row\<close>

lemma download_attempts_logged:
  "download_attempts env url mr as le w = (r, w') \<Longrightarrow> \<exists>l. logged w' = logged w @ l"
proof (induction as arbitrary: le w)
  case Nil
  then show ?case by (auto split: option.splits)
next
  case (Cons a as)
  show ?case
  proof (cases "urlopen env (requests w) url")
    case (Body b)
    with Cons.prems show ?thesis by (auto simp: Let_def)
  next
    case (Failed e)
    with Cons.prems Cons.IH show ?thesis by (fastforce simp: Let_def)
  next
    case Raised
    with Cons.prems show ?thesis by (auto simp: Let_def)
  qed
qed

lemma save_images_logged:
  "save_images env out mp ze fm names c w = (r, w') \<Longrightarrow> \<exists>l. logged w' = logged w @ l"
proof (induction names arbitrary: c w)
  case Nil
  then show ?case by (auto split: if_splits)
next
  case (Cons f names)
  show ?case
  proof (cases "map_of ze f")
    case None
    with Cons.prems Cons.IH show ?thesis by fastforce
  next
    case (Some img)
    with Cons.prems Cons.IH show ?thesis
      by (fastforce simp: Let_def split: prod.splits write_result.splits if_splits)
  qed
qed

lemma fetch_and_save_logged:
  assumes "fetch_and_save env url items s out mp w = (r, w')"
  shows "\<exists>l. logged w' = logged w @ l"
proof -
  obtain rd w1 where dl: "download_bytes env url default_max_retries w = (rd, w1)"
    by (cases "download_bytes env url default_max_retries w")
  then obtain l1 where l1: "logged w1 = logged w @ l1"
    unfolding download_bytes_def using download_attempts_logged by blast
  have "\<exists>l. logged w' = logged w1 @ l"
    using assms dl save_images_logged
    by (fastforce simp: fetch_and_save_def split: sum.splits option.splits if_splits prod.splits)
  with l1 show ?thesis by auto
qed

lemma process_shelf_tags_row_logged:
  assumes "process_shelf_tags_row env row zf jf s out mp w = (r, w')"
  shows "\<exists>l. logged w' = logged w @ l"
proof -
  obtain ri w1 where js: "safe_json_loads env (get_field_value row jf) w = (ri, w1)"
    by (cases "safe_json_loads env (get_field_value row jf) w")
  then have "\<exists>l. logged w1 = logged w @ l"
    by (auto simp: safe_json_loads_def Let_def split: option.splits if_splits loads_result.splits)
  then obtain l1 where l1: "logged w1 = logged w @ l1" by blast
  have "\<exists>l. logged w' = logged w1 @ l"
    using assms js fetch_and_save_logged
    by (fastforce simp: process_shelf_tags_row_def Let_def
          split: sum.splits json.splits list.splits if_splits)
  with l1 show ?thesis by auto
qed

lemma main_loop_logged:
  "main_loop env a mp rows c p w = (c', w') \<Longrightarrow> \<exists>l. logged w' = logged w @ l"
proof (induction rows arbitrary: c p w)
  case Nil
  then show ?case by simp
next
  case (Cons ir rows)
  obtain idx row where ir: "ir = (idx, row)" by (cases ir)
  show ?case
  proof (cases "args_limit_rows a \<noteq> 0 \<and> p \<ge> args_limit_rows a")
    case True
    with Cons.prems ir show ?thesis by simp
  next
    case False
    obtain r w1 where pr: "process_shelf_tags_row env row (args_zip_field a) (args_json_field a)
        c (args_out a) mp w = (r, w1)"
      by (cases "process_shelf_tags_row env row (args_zip_field a) (args_json_field a) c (args_out a) mp w")
    from process_shelf_tags_row_logged[OF pr] obtain l1 where l1: "logged w1 = logged w @ l1"
      by blast
    show ?thesis
    proof (cases r)
      case (Inl e)
      with Cons.prems ir False pr
      have "main_loop env a mp rows c p (add_log ERROR (RowError idx e) w1) = (c', w')" by simp
      from Cons.IH[OF this] l1 show ?thesis by auto
    next
      case (Inr c1)
      with Cons.prems ir False pr
      have "main_loop env a mp rows c1 (p + 1) w1 = (c', w')" by simp
      from Cons.IH[OF this] l1 show ?thesis by auto
    qed
  qed
qed

text \<open>
  Claim C9. When processing the row at index \<open>idx\<close> raises, the driver catches the
  exception, logs it at error level with \<open>idx\<close>, and goes on with the remaining rows
  from the counter (and the count of processed rows) it had before that row. The log
  entry is still there at the end of the loop.
\<close>

theorem row_exception_isolated:
  assumes "process_shelf_tags_row env row (args_zip_field a) (args_json_field a) image_counter
             (args_out a) mp w = (Inl e, w1)"
    and "args_limit_rows a = 0 \<or> processed_rows < args_limit_rows a"
  shows "main_loop env a mp ((idx, row) # rest) image_counter processed_rows w =
           main_loop env a mp rest image_counter processed_rows
             (add_log ERROR (RowError idx e) w1) \<and>
         (ERROR, RowError idx e)
           \<in> set (logged (snd (main_loop env a mp ((idx, row) # rest) image_counter
                                 processed_rows w)))"
proof -
  have step: "main_loop env a mp ((idx, row) # rest) image_counter processed_rows w =
           main_loop env a mp rest image_counter processed_rows
             (add_log ERROR (RowError idx e) w1)"
    using assms by auto
  obtain c' w' where run: "main_loop env a mp rest image_counter processed_rows
             (add_log ERROR (RowError idx e) w1) = (c', w')"
    by (cases "main_loop env a mp rest image_counter processed_rows
             (add_log ERROR (RowError idx e) w1)")
  from main_loop_logged[OF run] have "(ERROR, RowError idx e) \<in> set (logged w')" by auto
  with step run show ?thesis by simp
qed

lemma hiccup_first_row:
  "process_shelf_tags_row hiccup_env example_row ''SHELF_TAGS'' ''SHELF_TAGS_IMAGES_URL'' s
      out mp world0 = (Inl UncaughtFetchError, world0\<lparr>requests := 1\<rparr>)"
proof -
  obtain x xs where it: "example_items = x # xs"
    using ex_items_nonempty by (cases example_items) auto
  have dl: "download_bytes hiccup_env ''http://x/a.zip'' default_max_retries world0
              = (Inl UncaughtFetchError, world0\<lparr>requests := 1\<rparr>)"
    by (simp add: download_bytes_def default_max_retries_def hiccup_env_def world0_def
          upto_rec1 Let_def)
  have "fetch_and_save hiccup_env ''http://x/a.zip'' example_items s out mp world0
          = (Inl UncaughtFetchError, world0\<lparr>requests := 1\<rparr>)"
    by (simp add: fetch_and_save_def dl)
  moreover have "json_loads hiccup_env = json_loads example_env" by (simp add: hiccup_env_def)
  ultimately show ?thesis
    by (simp add: process_shelf_tags_row_def ex_url ex_blob ex_strip_url ex_loads it)
qed

theorem row_exception_isolated_witness:
  "main_loop hiccup_env example_args ''out/metadata.txt'' [(0, example_row), (1, example_row)]
      0 0 world0
     = (3, world0\<lparr>requests := 2,
           logged := [(ERROR, RowError 0 UncaughtFetchError)],
           written := [(heif_path ''out'' 1, [2]), (heif_path ''out'' 2, [10]),
                       (heif_path ''out'' 3, [7])],
           appended := [(''out/metadata.txt'', meta_line ''0012'' ''scanner''),
                        (''out/metadata.txt'', meta_line ''4006381333931'' ''ocr''),
                        (''out/metadata.txt'', meta_line ''12345'' [])]\<rparr>)"
proof -
  have a: "process_shelf_tags_row hiccup_env example_row (args_zip_field example_args)
      (args_json_field example_args) 0 (args_out example_args) ''out/metadata.txt'' world0
        = (Inl UncaughtFetchError, world0\<lparr>requests := 1\<rparr>)"
    by (simp add: example_args_def hiccup_first_row)
  have b: "args_limit_rows example_args = 0 \<or> 0 < args_limit_rows example_args"
    by (simp add: example_args_def)
  define w1 where "w1 = add_log ERROR (RowError 0 UncaughtFetchError) (world0\<lparr>requests := 1\<rparr>)"
  have rq: "urlopen hiccup_env (requests w1) ''http://x/a.zip'' = Body [80, 75]"
    by (simp add: w1_def hiccup_env_def world0_def)
  have second: "process_shelf_tags_row hiccup_env example_row ''SHELF_TAGS''
      ''SHELF_TAGS_IMAGES_URL'' 0 ''out'' ''out/metadata.txt'' w1
    = (Inr 3, w1\<lparr>requests := Suc (requests w1),
         written := written w1 @ [(heif_path ''out'' 1, [2]), (heif_path ''out'' 2, [10]),
                     (heif_path ''out'' 3, [7])],
         appended := appended w1 @ [(''out/metadata.txt'', meta_line ''0012'' ''scanner''),
                      (''out/metadata.txt'', meta_line ''4006381333931'' ''ocr''),
                      (''out/metadata.txt'', meta_line ''12345'' [])]\<rparr>)"
    using example_row_run[OF _ _ rq, of 0 "''out''" "''out/metadata.txt''"]
    by (simp add: hiccup_env_def example_env_def)
  have "main_loop hiccup_env example_args ''out/metadata.txt'' [(0, example_row), (1, example_row)]
      0 0 world0
     = main_loop hiccup_env example_args ''out/metadata.txt'' [(1, example_row)] 0 0 w1"
    using row_exception_isolated[OF a b, of 0 "[(1, example_row)]"] by (simp add: w1_def)
  also have "\<dots> = (3, w1\<lparr>requests := Suc (requests w1),
         written := written w1 @ [(heif_path ''out'' 1, [2]), (heif_path ''out'' 2, [10]),
                     (heif_path ''out'' 3, [7])],
         appended := appended w1 @ [(''out/metadata.txt'', meta_line ''0012'' ''scanner''),
                      (''out/metadata.txt'', meta_line ''4006381333931'' ''ocr''),
                      (''out/metadata.txt'', meta_line ''12345'' [])]\<rparr>)"
    by (simp add: example_args_def second)
  also have "\<dots> = (3, world0\<lparr>requests := 2,
           logged := [(ERROR, RowError 0 UncaughtFetchError)],
           written := [(heif_path ''out'' 1, [2]), (heif_path ''out'' 2, [10]),
                       (heif_path ''out'' 3, [7])],
           appended := [(''out/metadata.txt'', meta_line ''0012'' ''scanner''),
                        (''out/metadata.txt'', meta_line ''4006381333931'' ''ocr''),
                        (''out/metadata.txt'', meta_line ''12345'' [])]\<rparr>)"
    by (simp add: w1_def add_log_def world0_def)
  finally show ?thesis .
qed

subsection \<open>Rows that are skipped\<close>

text \<open>
  Claim C4. When the JSON cell of a row is missing, empty after trimming, rejected by
  \<^verbatim>\<open>json.loads\<close> with \<^verbatim>\<open>JSONDecodeError\<close>, or parses to anything but a non-empty list
  (\<^verbatim>\<open>[]\<close> included), the row processor returns the starting counter, writes no image,
  appends no line and makes no request; its result is a return value, not an exception.
\<close>

theorem unusable_json_skips_row:
  assumes "get_field_value row json_field = None \<or>
           (\<exists>t. get_field_value row json_field = Some t \<and>
              (strip t = [] \<or> json_loads env (strip t) = JSONDecodeError \<or>
               (\<exists>v. json_loads env (strip t) = Decoded v \<and> (\<forall>x xs. v \<noteq> JList (x # xs)))))"
  shows "fst (process_shelf_tags_row env row zip_url_field json_field s out mp w) = Inr s \<and>
         written (snd (process_shelf_tags_row env row zip_url_field json_field s out mp w))
           = written w \<and>
         appended (snd (process_shelf_tags_row env row zip_url_field json_field s out mp w))
           = appended w \<and>
         requests (snd (process_shelf_tags_row env row zip_url_field json_field s out mp w))
           = requests w"
proof -
  obtain ri w1 where js: "safe_json_loads env (get_field_value row json_field) w = (ri, w1)"
    by (cases "safe_json_loads env (get_field_value row json_field) w")
  note f1 = safe_json_loads_files[OF js]
  have "\<exists>items. ri = Inr items \<and> (\<forall>x xs. items \<noteq> JList (x # xs))"
    using assms js
    by (auto simp: safe_json_loads_def Let_def split: option.splits if_splits)
  then obtain items where ri: "ri = Inr items" and nl: "\<forall>x xs. items \<noteq> JList (x # xs)"
    by blast
  define url where "url = strip (case get_field_value row zip_url_field of None \<Rightarrow> [] | Some s \<Rightarrow> s)"
  have "process_shelf_tags_row env row zip_url_field json_field s out mp w
          = (Inr s, add_log INFO (if url = [] then SkipNoUrl zip_url_field
                                   else SkipInvalidJson json_field) w1)"
    using js ri nl unfolding process_shelf_tags_row_def url_def[symmetric]
    by (auto simp: Let_def split: json.splits list.splits)
  with f1 show ?thesis by simp
qed

theorem unusable_json_skips_row_witness:
  "fst (process_shelf_tags_row example_env (row_with_json ''{oops'') ''SHELF_TAGS''
          ''SHELF_TAGS_IMAGES_URL'' 7 ''out'' ''out/metadata.txt'' world0) = Inr 7 \<and>
   written (snd (process_shelf_tags_row example_env (row_with_json ''{oops'') ''SHELF_TAGS''
          ''SHELF_TAGS_IMAGES_URL'' 7 ''out'' ''out/metadata.txt'' world0)) = [] \<and>
   appended (snd (process_shelf_tags_row example_env (row_with_json ''{oops'') ''SHELF_TAGS''
          ''SHELF_TAGS_IMAGES_URL'' 7 ''out'' ''out/metadata.txt'' world0)) = [] \<and>
   fst (process_shelf_tags_row example_env (row_with_json '' [] '') ''SHELF_TAGS''
          ''SHELF_TAGS_IMAGES_URL'' 7 ''out'' ''out/metadata.txt'' world0) = Inr 7 \<and>
   written (snd (process_shelf_tags_row example_env (row_with_json '' [] '') ''SHELF_TAGS''
          ''SHELF_TAGS_IMAGES_URL'' 7 ''out'' ''out/metadata.txt'' world0)) = [] \<and>
   appended (snd (process_shelf_tags_row example_env (row_with_json '' [] '') ''SHELF_TAGS''
          ''SHELF_TAGS_IMAGES_URL'' 7 ''out'' ''out/metadata.txt'' world0)) = []"
proof -
  have g: "\<And>t. get_field_value (row_with_json t) ''SHELF_TAGS_IMAGES_URL'' = Some t"
    by (simp add: get_field_value_def row_with_json_def)
  have s1: "strip ''{oops'' = ''{oops''" and s2: "strip '' [] '' = ''[]''"
    by (simp_all add: strip_def is_space_def)
  have l1: "json_loads example_env ''{oops'' = JSONDecodeError"
    and l2: "json_loads example_env ''[]'' = Decoded (JList [])"
    by (simp_all add: example_env_def example_json_def)
  have h1: "get_field_value (row_with_json ''{oops'') ''SHELF_TAGS_IMAGES_URL'' = None \<or>
           (\<exists>t. get_field_value (row_with_json ''{oops'') ''SHELF_TAGS_IMAGES_URL'' = Some t \<and>
              (strip t = [] \<or> json_loads example_env (strip t) = JSONDecodeError \<or>
               (\<exists>v. json_loads example_env (strip t) = Decoded v \<and> (\<forall>x xs. v \<noteq> JList (x # xs)))))"
    by (simp add: g s1 l1)
  have h2: "get_field_value (row_with_json '' [] '') ''SHELF_TAGS_IMAGES_URL'' = None \<or>
           (\<exists>t. get_field_value (row_with_json '' [] '') ''SHELF_TAGS_IMAGES_URL'' = Some t \<and>
              (strip t = [] \<or> json_loads example_env (strip t) = JSONDecodeError \<or>
               (\<exists>v. json_loads example_env (strip t) = Decoded v \<and> (\<forall>x xs. v \<noteq> JList (x # xs)))))"
    by (simp add: g s2 l2)
  from unusable_json_skips_row[OF h1, of "''SHELF_TAGS''" 7 "''out''" "''out/metadata.txt''" world0]
       unusable_json_skips_row[OF h2, of "''SHELF_TAGS''" 7 "''out''" "''out/metadata.txt''" world0]
  show ?thesis by (simp add: world0_def)
qed

text \<open>
  The restriction to \<^verbatim>\<open>JSONDecodeError\<close> is needed: on a text that is no JSON document
  but on which \<^verbatim>\<open>json.loads\<close> raises another exception, the row processor raises.
\<close>

lemma deep_strip: "strip deep_json = deep_json"
  by (rule strip_id) (simp_all add: deep_json_def is_space_def)

theorem recursion_error_counterexample:
  "json_loads deep_env (strip deep_json) = LoadsRaised \<and>
   process_shelf_tags_row deep_env (row_with_json deep_json) ''SHELF_TAGS''
       ''SHELF_TAGS_IMAGES_URL'' 7 ''out'' ''out/metadata.txt'' world0
     = (Inl UncaughtLoadsError, world0)"
proof -
  have nz: "deep_json \<noteq> []" by (simp add: deep_json_def)
  have l: "json_loads deep_env deep_json = LoadsRaised" by (simp add: deep_env_def)
  have "safe_json_loads deep_env (Some deep_json) world0 = (Inl UncaughtLoadsError, world0)"
    using nz l by (simp add: safe_json_loads_def deep_strip Let_def)
  then show ?thesis
    using l by (simp add: process_shelf_tags_row_def row_with_json_def get_field_value_def
          deep_strip Let_def)
qed

text \<open>
  Claim C5. When the fetcher returns \<^verbatim>\<open>None\<close> for the row's archive URL, or the archive
  it returns decodes to no entries, the row processor returns the starting counter and
  writes no image and appends no line.
\<close>

theorem failed_fetch_skips_row:
  assumes "zip_url = strip (case get_field_value row zip_url_field of None \<Rightarrow> [] | Some s \<Rightarrow> s)"
    and "safe_json_loads env (get_field_value row json_field) w = (Inr items, w1)"
    and "fst (download_bytes env zip_url default_max_retries w1) = Inr None \<or>
         (\<exists>zip_bytes. fst (download_bytes env zip_url default_max_retries w1) = Inr (Some zip_bytes) \<and>
            extract_zip_entries env zip_bytes = Inr [])"
  shows "fst (process_shelf_tags_row env row zip_url_field json_field s out mp w) = Inr s \<and>
         written (snd (process_shelf_tags_row env row zip_url_field json_field s out mp w))
           = written w \<and>
         appended (snd (process_shelf_tags_row env row zip_url_field json_field s out mp w))
           = appended w"
proof -
  note js = assms(2)
  note f1 = safe_json_loads_files[OF js]
  obtain rd w2 where dl: "download_bytes env zip_url default_max_retries w1 = (rd, w2)"
    by (cases "download_bytes env zip_url default_max_retries w1")
  note f2 = download_bytes_files[OF dl]
  have fs: "fst (fetch_and_save env zip_url its s out mp w1) = Inr s \<and>
            written (snd (fetch_and_save env zip_url its s out mp w1)) = written w \<and>
            appended (snd (fetch_and_save env zip_url its s out mp w1)) = appended w" for its
    using assms(3) dl f1 f2
    by (auto simp: fetch_and_save_def split: if_splits)
  show ?thesis
    using js f1 fs unfolding process_shelf_tags_row_def assms(1)[symmetric]
    by (auto simp: Let_def split: json.splits list.splits)
qed

theorem failed_fetch_skips_row_witness:
  "fst (process_shelf_tags_row down_env example_row ''SHELF_TAGS'' ''SHELF_TAGS_IMAGES_URL'' 7
          ''out'' ''out/metadata.txt'' world0) = Inr 7 \<and>
   written (snd (process_shelf_tags_row down_env example_row ''SHELF_TAGS''
          ''SHELF_TAGS_IMAGES_URL'' 7 ''out'' ''out/metadata.txt'' world0)) = [] \<and>
   appended (snd (process_shelf_tags_row down_env example_row ''SHELF_TAGS''
          ''SHELF_TAGS_IMAGES_URL'' 7 ''out'' ''out/metadata.txt'' world0)) = [] \<and>
   fst (process_shelf_tags_row empty_zip_env example_row ''SHELF_TAGS'' ''SHELF_TAGS_IMAGES_URL'' 7
          ''out'' ''out/metadata.txt'' world0) = Inr 7 \<and>
   written (snd (process_shelf_tags_row empty_zip_env example_row ''SHELF_TAGS''
          ''SHELF_TAGS_IMAGES_URL'' 7 ''out'' ''out/metadata.txt'' world0)) = [] \<and>
   appended (snd (process_shelf_tags_row empty_zip_env example_row ''SHELF_TAGS''
          ''SHELF_TAGS_IMAGES_URL'' 7 ''out'' ''out/metadata.txt'' world0)) = []"
proof -
  have u: "''http://x/a.zip''
             = strip (case get_field_value example_row ''SHELF_TAGS'' of None \<Rightarrow> [] | Some s \<Rightarrow> s)"
    by (simp add: ex_url ex_strip_url)
  have w1: "safe_json_loads down_env (get_field_value example_row ''SHELF_TAGS_IMAGES_URL'')
              world0 = (Inr (JList example_items), world0)"
    by (simp add: ex_blob ex_loads down_env_def)
  have w2: "safe_json_loads empty_zip_env (get_field_value example_row ''SHELF_TAGS_IMAGES_URL'')
              world0 = (Inr (JList example_items), world0)"
    by (simp add: ex_blob ex_loads empty_zip_env_def)
  have d1: "fst (download_bytes down_env ''http://x/a.zip'' default_max_retries world0) = Inr None"
    by (simp add: download_bytes_def default_max_retries_def down_env_def upto_rec1 Let_def)
  have d2: "fst (download_bytes empty_zip_env ''http://x/a.zip'' default_max_retries world0)
              = Inr (Some [80, 75])"
    by (simp add: ex_download empty_zip_env_def example_env_def)
  have z2: "extract_zip_entries empty_zip_env [80, 75] = Inr []"
    by (simp add: extract_zip_entries_def empty_zip_env_def)
  have h1: "fst (download_bytes down_env ''http://x/a.zip'' default_max_retries world0) = Inr None \<or>
         (\<exists>zip_bytes. fst (download_bytes down_env ''http://x/a.zip'' default_max_retries world0)
              = Inr (Some zip_bytes) \<and> extract_zip_entries down_env zip_bytes = Inr [])"
    using d1 by simp
  have h2: "fst (download_bytes empty_zip_env ''http://x/a.zip'' default_max_retries world0) = Inr None \<or>
         (\<exists>zip_bytes. fst (download_bytes empty_zip_env ''http://x/a.zip'' default_max_retries world0)
              = Inr (Some zip_bytes) \<and> extract_zip_entries empty_zip_env zip_bytes = Inr [])"
    using d2 z2 by simp
  from failed_fetch_skips_row[OF u w1 h1, of 7 "''out''" "''out/metadata.txt''"]
       failed_fetch_skips_row[OF u w2 h2, of 7 "''out''" "''out/metadata.txt''"]
  show ?thesis by (simp add: world0_def)
qed

subsection \<open>Unusable barcodes\<close>

lemma strip_Nil: "strip [] = []"
  by (simp add: strip_def)

lemma meta_step_unusable:
  assumes "barcode_unusable obj"
  shows "meta_step m obj = Inr m \<or> meta_step m obj = Inl AttributeError"
proof -
  from assms obtain d where obj: "obj = JObj d"
    by (cases obj) (simp_all add: barcode_unusable_def)
  define raw where "raw = dict_get d ''barcode''"
  define bc where "bc = strip (if raw = JNull \<or> raw = JStr ''null'' then [] else py_str raw)"
  have bad: "bc = [] \<or> is_all_zeros bc"
    using assms obj by (auto simp: barcode_unusable_def Let_def raw_def bc_def strip_Nil)
  have "meta_step m (JObj d) =
     (case py_or (dict_get d ''uploaded_image'') (JObj []) of
        JObj uploaded \<Rightarrow>
          (case py_or (dict_get uploaded ''image_filename'') (JStr []) of
             JStr fn \<Rightarrow> Inr m
           | _ \<Rightarrow> Inl AttributeError)
      | _ \<Rightarrow> Inl AttributeError)"
    unfolding meta_step_def json.case Let_def raw_def[symmetric] bc_def[symmetric]
    using bad by (auto split: json.splits)
  then show ?thesis unfolding obj by (simp split: json.splits)
qed

lemma build_skips_unusable:
  assumes "barcode_unusable obj"
  shows "build_filename_to_meta m (pre @ obj # post) = build_filename_to_meta m (pre @ post) \<or>
         build_filename_to_meta m (pre @ obj # post) = Inl AttributeError"
proof (cases "build_filename_to_meta m pre")
  case (Inl e)
  then show ?thesis by (simp add: build_filename_to_meta_append)
next
  case (Inr m')
  with meta_step_unusable[OF assms, of m'] show ?thesis
    by (auto simp: build_filename_to_meta_append)
qed

lemma fetch_and_save_build:
  "build_filename_to_meta [] items = build_filename_to_meta [] items' \<Longrightarrow>
     fetch_and_save env url items s out mp w = fetch_and_save env url items' s out mp w"
proof -
  assume a: "build_filename_to_meta [] items = build_filename_to_meta [] items'"
  show ?thesis unfolding fetch_and_save_def a ..
qed

lemma fetch_and_save_build_raises:
  assumes "build_filename_to_meta [] items = Inl e"
  shows "fetch_and_save env url items s out mp w = fetch_and_save env url items' s out mp w \<or>
         (fst (fetch_and_save env url items s out mp w) = Inl e \<and>
          written (snd (fetch_and_save env url items s out mp w)) = written w \<and>
          appended (snd (fetch_and_save env url items s out mp w)) = appended w)"
proof -
  obtain rd w1 where dl: "download_bytes env url default_max_retries w = (rd, w1)"
    by (cases "download_bytes env url default_max_retries w")
  note f = download_bytes_files[OF dl]
  show ?thesis
    using assms dl f
    by (auto simp: fetch_and_save_def split: sum.splits option.splits if_splits)
qed

text \<open>
  Claim C2. A list element whose barcode is missing, \<^verbatim>\<open>None\<close>, the string \<^verbatim>\<open>null\<close>, empty
  after trimming or all zeros adds no entry to the filename-to-metadata mapping, whatever
  its \<^verbatim>\<open>barcode_detection_source\<close> is: a pass of the loop over it leaves the mapping as it
  was (or raises, when its \<^verbatim>\<open>uploaded_image\<close> or filename has the wrong type). So the
  mapping built from a list with the element is the mapping built from the list without
  it, and the row writes the same images and appends the same lines as without it; or
  the row is aborted, with nothing written.
\<close>

theorem unusable_barcode_excluded:
  assumes "barcode_unusable obj"
  shows "(meta_step m obj = Inr m \<or> meta_step m obj = Inl AttributeError) \<and>
         (build_filename_to_meta [] (pre @ obj # post) = build_filename_to_meta [] (pre @ post) \<or>
          build_filename_to_meta [] (pre @ obj # post) = Inl AttributeError) \<and>
         (fetch_and_save env zip_url (pre @ obj # post) s out mp w
            = fetch_and_save env zip_url (pre @ post) s out mp w \<or>
          (fst (fetch_and_save env zip_url (pre @ obj # post) s out mp w) = Inl AttributeError \<and>
           written (snd (fetch_and_save env zip_url (pre @ obj # post) s out mp w)) = written w \<and>
           appended (snd (fetch_and_save env zip_url (pre @ obj # post) s out mp w)) = appended w))"
proof -
  note a = meta_step_unusable[OF assms, of m]
  note b = build_skips_unusable[OF assms, of "[]" pre post]
  from b have "fetch_and_save env zip_url (pre @ obj # post) s out mp w
            = fetch_and_save env zip_url (pre @ post) s out mp w \<or>
          (fst (fetch_and_save env zip_url (pre @ obj # post) s out mp w) = Inl AttributeError \<and>
           written (snd (fetch_and_save env zip_url (pre @ obj # post) s out mp w)) = written w \<and>
           appended (snd (fetch_and_save env zip_url (pre @ obj # post) s out mp w)) = appended w)"
  proof
    assume "build_filename_to_meta [] (pre @ obj # post) = build_filename_to_meta [] (pre @ post)"
    from fetch_and_save_build[OF this] show ?thesis by blast
  next
    assume "build_filename_to_meta [] (pre @ obj # post) = Inl AttributeError"
    from fetch_and_save_build_raises[OF this] show ?thesis by blast
  qed
  with a b show ?thesis by blast
qed

theorem unusable_barcode_excluded_witness:
  "barcode_unusable (tagged_object ''img_2.jpg'' (JNum 0) (JNum 5)) \<and>
   (meta_step [] (tagged_object ''img_2.jpg'' (JNum 0) (JNum 5)) = Inr [] \<or>
    meta_step [] (tagged_object ''img_2.jpg'' (JNum 0) (JNum 5)) = Inl AttributeError) \<and>
   (build_filename_to_meta [] ([] @ tagged_object ''img_2.jpg'' (JNum 0) (JNum 5) # example_items)
      = build_filename_to_meta [] ([] @ example_items) \<or>
    build_filename_to_meta [] ([] @ tagged_object ''img_2.jpg'' (JNum 0) (JNum 5) # example_items)
      = Inl AttributeError)"
proof -
  have h: "barcode_unusable (tagged_object ''img_2.jpg'' (JNum 0) (JNum 5))"
    by (simp add: barcode_unusable_def tagged_object_def dict_get_def py_str_def string_eval)
  from unusable_barcode_excluded[OF h, of "[]" "[]" example_items] h
  show ?thesis by blast
qed

subsection \<open>The processing order\<close>

text \<open>The search of the regular expression finds the last run of digits right before the final extension, and nothing else.\<close>

lemma lookahead_ext_iff: "lookahead_ext r \<longleftrightarrow> (\<exists>ext. r = CHR ''.'' # ext \<and> has_ext ext)"
  by (cases r) (auto simp: lookahead_ext_def has_ext_def)

lemma not_digit_dot: "\<not> is_digit CHR ''.''"
  by (simp add: is_digit_def)

lemma try_lengths_Some:
  "try_lengths s n = Some g \<Longrightarrow> \<exists>k. 0 < k \<and> k \<le> n \<and> g = take k s \<and> lookahead_ext (drop k s)"
  by (induction n) (auto split: if_splits intro: le_SucI)

lemma try_lengths_hit:
  "lookahead_ext (drop n s) \<Longrightarrow> 0 < n \<Longrightarrow> try_lengths s n = Some (take n s)"
  by (cases n) simp_all

lemma match_here_hit:
  assumes "g \<noteq> []" "\<forall>c \<in> set g. is_digit c" "has_ext ext"
  shows "match_here (g @ CHR ''.'' # ext) = Some g"
proof -
  have "takeWhile is_digit (g @ CHR ''.'' # ext) = g"
    using assms(2) not_digit_dot by (simp add: takeWhile_append2)
  moreover have "lookahead_ext (drop (length g) (g @ CHR ''.'' # ext))"
    using assms(3) by (simp add: lookahead_ext_iff)
  ultimately show ?thesis
    using assms(1) try_lengths_hit[of "length g" "g @ CHR ''.'' # ext"]
    by (simp add: match_here_def)
qed

lemma match_here_Some:
  assumes "match_here s = Some g"
  shows "\<exists>ext. s = g @ CHR ''.'' # ext \<and> g \<noteq> [] \<and> (\<forall>c \<in> set g. is_digit c) \<and> has_ext ext"
proof -
  from assms obtain k where k: "0 < k" "k \<le> length (takeWhile is_digit s)" "g = take k s"
    "lookahead_ext (drop k s)"
    unfolding match_here_def using try_lengths_Some by blast
  from k(4) obtain ext where ext: "drop k s = CHR ''.'' # ext" "has_ext ext"
    by (auto simp: lookahead_ext_iff)
  have "take k s = take k (takeWhile is_digit s)"
    using k(2) by (metis takeWhile_dropWhile_id take_append diff_is_0_eq take_0 append_Nil2)
  then have dig: "\<forall>c \<in> set g. is_digit c"
    using k(3) by (metis in_set_takeD set_takeWhileD)
  have "k \<le> length s" using k(2) by (meson le_trans length_takeWhile_le)
  then have "g \<noteq> []" using k(1,3) by auto
  moreover have "s = g @ CHR ''.'' # ext"
    using k(3) ext(1) by (metis append_take_drop_id)
  ultimately show ?thesis using dig ext(2) by blast
qed

lemma last_dot_split_unique:
  assumes "a @ CHR ''.'' # e = b @ CHR ''.'' # e'" "CHR ''.'' \<notin> set e" "CHR ''.'' \<notin> set e'"
  shows "a = b \<and> e = e'"
proof -
  have "\<And>x y. CHR ''.'' \<notin> set y \<Longrightarrow>
          takeWhile (\<lambda>c. c \<noteq> CHR ''.'') (rev (x @ CHR ''.'' # y)) = rev y"
    by (auto simp: takeWhile_append2 takeWhile_tail)
  with assms have "rev e = rev e'" by metis
  then have "e = e'" by simp
  with assms(1) show ?thesis by simp
qed


lemma no_match_before:
  assumes "p \<noteq> []" "\<not> is_digit (last p)" "has_ext ext"
  shows "match_here (p @ g @ CHR ''.'' # ext) = None"
proof (rule ccontr)
  assume "match_here (p @ g @ CHR ''.'' # ext) \<noteq> None"
  then obtain g' where "match_here (p @ g @ CHR ''.'' # ext) = Some g'" by auto
  from match_here_Some[OF this] obtain ext' where
    e: "p @ g @ CHR ''.'' # ext = g' @ CHR ''.'' # ext'" "\<forall>c \<in> set g'. is_digit c" "has_ext ext'"
    by blast
  from e(1) have "(p @ g) @ CHR ''.'' # ext = g' @ CHR ''.'' # ext'" by simp
  from last_dot_split_unique[OF this] assms(3) e(3) have "p @ g = g'" by (simp add: has_ext_def)
  with e(2) have "\<forall>c \<in> set p. is_digit c" by auto
  with assms(1,2) show False by (metis last_in_set)
qed

lemma re_search_suffix_hit:
  assumes "g \<noteq> []" "\<forall>c \<in> set g. is_digit c" "has_ext ext" "p = [] \<or> \<not> is_digit (last p)"
  shows "re_search_suffix (p @ g @ CHR ''.'' # ext) = Some g"
  using assms(4)
proof (induction p)
  case Nil
  obtain c cs where "g = c # cs" using assms(1) by (cases g) auto
  with match_here_hit[OF assms(1-3)] show ?case by simp
next
  case (Cons c p)
  then have nd: "\<not> is_digit (last (c # p))" by simp
  have "match_here ((c # p) @ g @ CHR ''.'' # ext) = None"
    by (rule no_match_before[OF _ nd assms(3)]) simp
  moreover have "p = [] \<or> \<not> is_digit (last p)" using nd by auto
  ultimately show ?case using Cons.IH by simp
qed

lemma re_search_suffix_Some:
  "re_search_suffix s = Some g \<Longrightarrow>
     \<exists>p ext. s = p @ g @ CHR ''.'' # ext \<and> g \<noteq> [] \<and> (\<forall>c \<in> set g. is_digit c) \<and>
       has_ext ext \<and> (p = [] \<or> \<not> is_digit (last p))"
proof (induction s)
  case Nil
  then show ?case by simp
next
  case (Cons c cs)
  show ?case
  proof (cases "match_here (c # cs)")
    case (Some g')
    with Cons.prems have "g' = g" by simp
    with match_here_Some[OF Some] obtain ext where
      "c # cs = g @ CHR ''.'' # ext" "g \<noteq> []" "\<forall>c \<in> set g. is_digit c" "has_ext ext"
      by blast
    then show ?thesis by (intro exI[of _ "[]"] exI[of _ ext]) simp
  next
    case None
    with Cons.prems have "re_search_suffix cs = Some g" by simp
    from Cons.IH[OF this] obtain p ext where
      pe: "cs = p @ g @ CHR ''.'' # ext" "g \<noteq> []" "\<forall>c \<in> set g. is_digit c" "has_ext ext"
        "p = [] \<or> \<not> is_digit (last p)" by blast
    have "\<not> is_digit (last (c # p))"
    proof (cases "p = []")
      case True
      show ?thesis
      proof
        assume "is_digit (last (c # p))"
        with True have "is_digit c" by simp
        with pe(3) have "\<forall>x \<in> set (c # g). is_digit x" by simp
        from match_here_hit[OF _ this pe(4)] have "match_here (c # cs) = Some (c # g)"
          using pe(1) True by simp
        with None show False by simp
      qed
    next
      case False
      with pe(5) show ?thesis by simp
    qed
    with pe show ?thesis by (intro exI[of _ "c # p"] exI[of _ ext]) simp
  qed
qed

lemma parse_hit:
  assumes "g \<noteq> []" "\<forall>c \<in> set g. is_digit c" "ext \<noteq> []" "CHR ''.'' \<notin> set ext"
    "p = [] \<or> \<not> is_digit (last p)"
  shows "parse_int_suffix_from_filename (p @ g @ ''.'' @ ext) = Some (int_of_digits g)"
  using re_search_suffix_hit[OF assms(1,2) _ assms(5), of ext] assms(3,4)
  by (simp add: parse_int_suffix_from_filename_def has_ext_def)

lemma digit_suffix_split:
  "\<exists>p' d. p = p' @ d \<and> (\<forall>c \<in> set d. is_digit c) \<and> (p' = [] \<or> \<not> is_digit (last p'))"
proof -
  let ?d = "rev (takeWhile is_digit (rev p))"
  let ?p' = "rev (dropWhile is_digit (rev p))"
  have "p = ?p' @ ?d"
    by (metis rev_append rev_rev_ident takeWhile_dropWhile_id)
  moreover have "\<forall>c \<in> set ?d. is_digit c"
    by (auto dest: set_takeWhileD)
  moreover have "?p' = [] \<or> \<not> is_digit (last ?p')"
  proof (cases "dropWhile is_digit (rev p) = []")
    case True
    then show ?thesis by simp
  next
    case False
    then have "\<not> is_digit (hd (dropWhile is_digit (rev p)))" by (rule hd_dropWhile)
    with False show ?thesis by (simp add: last_rev)
  qed
  ultimately show ?thesis by blast
qed

lemma parse_None_iff:
  "parse_int_suffix_from_filename s = None \<longleftrightarrow>
     \<not> (\<exists>p g ext. s = p @ g @ ''.'' @ ext \<and> g \<noteq> [] \<and> (\<forall>c \<in> set g. is_digit c) \<and>
          ext \<noteq> [] \<and> CHR ''.'' \<notin> set ext)"
proof
  assume n: "parse_int_suffix_from_filename s = None"
  show "\<not> (\<exists>p g ext. s = p @ g @ ''.'' @ ext \<and> g \<noteq> [] \<and> (\<forall>c \<in> set g. is_digit c) \<and>
          ext \<noteq> [] \<and> CHR ''.'' \<notin> set ext)"
  proof
    assume "\<exists>p g ext. s = p @ g @ ''.'' @ ext \<and> g \<noteq> [] \<and> (\<forall>c \<in> set g. is_digit c) \<and>
          ext \<noteq> [] \<and> CHR ''.'' \<notin> set ext"
    then obtain p g ext where d: "s = p @ g @ ''.'' @ ext" "g \<noteq> []" "\<forall>c \<in> set g. is_digit c"
      "ext \<noteq> []" "CHR ''.'' \<notin> set ext" by blast
    obtain p' dd where s: "p = p' @ dd" "\<forall>c \<in> set dd. is_digit c"
      "p' = [] \<or> \<not> is_digit (last p')"
      using digit_suffix_split by blast
    have g1: "dd @ g \<noteq> []" using d(2) by simp
    have g2: "\<forall>c \<in> set (dd @ g). is_digit c" using d(3) s(2) by auto
    have "parse_int_suffix_from_filename (p' @ (dd @ g) @ ''.'' @ ext) = Some (int_of_digits (dd @ g))"
      by (rule parse_hit[OF g1 g2 d(4) d(5) s(3)])
    moreover have "p' @ (dd @ g) @ ''.'' @ ext = s" using d(1) s(1) by simp
    ultimately show False using n by simp
  qed
next
  assume no: "\<not> (\<exists>p g ext. s = p @ g @ ''.'' @ ext \<and> g \<noteq> [] \<and> (\<forall>c \<in> set g. is_digit c) \<and>
          ext \<noteq> [] \<and> CHR ''.'' \<notin> set ext)"
  have "re_search_suffix s = None"
  proof (rule ccontr)
    assume "re_search_suffix s \<noteq> None"
    then obtain g where "re_search_suffix s = Some g" by auto
    from re_search_suffix_Some[OF this] obtain p ext where
      "s = p @ g @ CHR ''.'' # ext" "g \<noteq> []" "\<forall>c \<in> set g. is_digit c" "has_ext ext"
      by blast
    then have "s = p @ g @ ''.'' @ ext \<and> g \<noteq> [] \<and> (\<forall>c \<in> set g. is_digit c) \<and>
          ext \<noteq> [] \<and> CHR ''.'' \<notin> set ext"
      by (simp add: has_ext_def)
    with no show False by blast
  qed
  then show "parse_int_suffix_from_filename s = None"
    by (simp add: parse_int_suffix_from_filename_def)
qed

lemma sort_key_name_snd: "snd (sort_key_name n) = n"
  by (simp add: sort_key_name_def split: option.splits)

lemma inj_sort_key_name: "inj_on sort_key_name A"
  by (metis inj_onI sort_key_name_snd)

lemma sorted_filenames_sorted: "sorted (map sort_key_name (sorted_filenames m))"
  by (simp add: sorted_filenames_def)

lemma sorted_filenames_unique:
  assumes "distinct (map fst m)" "set (map fst m) = set ks" "distinct ks"
    "sorted (map sort_key_name ks)"
  shows "sorted_filenames m = ks"
proof -
  have "map sort_key_name (sorted_filenames m) = map sort_key_name ks"
  proof (rule sorted_distinct_set_unique)
    show "sorted (map sort_key_name (sorted_filenames m))" by (rule sorted_filenames_sorted)
    show "distinct (map sort_key_name (sorted_filenames m))"
      using assms(1) by (simp add: sorted_filenames_def distinct_map inj_sort_key_name)
    show "sorted (map sort_key_name ks)" by (rule assms(4))
    show "distinct (map sort_key_name ks)"
      using assms(3) by (simp add: distinct_map inj_sort_key_name)
    show "set (map sort_key_name (sorted_filenames m)) = set (map sort_key_name ks)"
      using assms(2) by (simp add: sorted_filenames_def)
  qed
  then show ?thesis using inj_sort_key_name[of UNIV] by (simp add: inj_map_eq_map)
qed

lemma ex_keys:
  "sort_key_name ''img_2.jpg'' = (2, ''img_2.jpg'')"
  "sort_key_name ''img_10.jpg'' = (10, ''img_10.jpg'')"
  "sort_key_name ''cover.jpg'' = (10 ^ 9, ''cover.jpg'')"
  by (simp_all add: sort_key_name_def parse_int_suffix_from_filename_def match_here_def
        is_digit_def lookahead_ext_def int_of_digits_def digit_val_def)

lemma sorted_filenames_nth:
  assumes "i < j" "j < length m"
  shows "sort_key_name (sorted_filenames m ! i) \<le> sort_key_name (sorted_filenames m ! j)"
proof -
  have len: "length (sorted_filenames m) = length m" by (simp add: sorted_filenames_def)
  from sorted_filenames_sorted[of m] assms len
  have "map sort_key_name (sorted_filenames m) ! i \<le> map sort_key_name (sorted_filenames m) ! j"
    by (intro sorted_nth_mono) simp_all
  with assms len show ?thesis by simp
qed

text \<open>
  Claim C1, as the code has it. The processing order is a rearrangement of the matched
  filenames that ascends in the key (number, filename), where the number of a filename
  is the value of the last run of digits right before its final extension, and
  \<open>10 ^ 9\<close> when it has no such run. So of two names the one with the smaller number
  comes first, equal numbers are ordered by filename text, and a name without a number
  comes after every numbered name whose number is below \<open>10 ^ 9\<close> (and before every one
  above). For the filenames \<^verbatim>\<open>img_2.jpg\<close>, \<^verbatim>\<open>img_10.jpg\<close>, \<^verbatim>\<open>cover.jpg\<close>, matched in any
  order, the processing order is \<^verbatim>\<open>img_2.jpg\<close>, \<^verbatim>\<open>img_10.jpg\<close>, \<^verbatim>\<open>cover.jpg\<close>.
\<close>

theorem sorted_filenames_order:
  "set (sorted_filenames m) = fst ` set m \<and>
   length (sorted_filenames m) = length m \<and>
   (distinct (map fst m) \<longrightarrow> distinct (sorted_filenames m)) \<and>
   (i < j \<and> j < length m \<and> x = sorted_filenames m ! i \<and> y = sorted_filenames m ! j \<longrightarrow>
      (\<forall>a b. parse_int_suffix_from_filename x = Some a \<and> parse_int_suffix_from_filename y = Some b
          \<longrightarrow> a < b \<or> (a = b \<and> x \<le> y)) \<and>
      (\<forall>b. parse_int_suffix_from_filename x = None \<and> parse_int_suffix_from_filename y = Some b
          \<longrightarrow> 10 ^ 9 < b \<or> (b = 10 ^ 9 \<and> x \<le> y)) \<and>
      (\<forall>a. parse_int_suffix_from_filename x = Some a \<and> parse_int_suffix_from_filename y = None
          \<longrightarrow> a < 10 ^ 9 \<or> (a = 10 ^ 9 \<and> x \<le> y)) \<and>
      (parse_int_suffix_from_filename x = None \<and> parse_int_suffix_from_filename y = None
          \<longrightarrow> x \<le> y)) \<and>
   (g \<noteq> [] \<and> (\<forall>c \<in> set g. is_digit c) \<and> ext \<noteq> [] \<and> CHR ''.'' \<notin> set ext \<and>
    (p = [] \<or> \<not> is_digit (last p))
      \<longrightarrow> parse_int_suffix_from_filename (p @ g @ ''.'' @ ext) = Some (int_of_digits g)) \<and>
   (parse_int_suffix_from_filename s = None \<longleftrightarrow>
      \<not> (\<exists>p g ext. s = p @ g @ ''.'' @ ext \<and> g \<noteq> [] \<and> (\<forall>c \<in> set g. is_digit c) \<and>
            ext \<noteq> [] \<and> CHR ''.'' \<notin> set ext)) \<and>
   (distinct (map fst m) \<and> set (map fst m) = {''img_2.jpg'', ''img_10.jpg'', ''cover.jpg''}
      \<longrightarrow> sorted_filenames m = [''img_2.jpg'', ''img_10.jpg'', ''cover.jpg''])"
proof -
  have 1: "set (sorted_filenames m) = fst ` set m" by (simp add: sorted_filenames_def)
  have 2: "length (sorted_filenames m) = length m" by (simp add: sorted_filenames_def)
  have 3: "distinct (map fst m) \<longrightarrow> distinct (sorted_filenames m)"
    by (simp add: sorted_filenames_def)
  have 4: "(\<forall>a b. parse_int_suffix_from_filename x = Some a \<and> parse_int_suffix_from_filename y = Some b
          \<longrightarrow> a < b \<or> (a = b \<and> x \<le> y)) \<and>
      (\<forall>b. parse_int_suffix_from_filename x = None \<and> parse_int_suffix_from_filename y = Some b
          \<longrightarrow> 10 ^ 9 < b \<or> (b = 10 ^ 9 \<and> x \<le> y)) \<and>
      (\<forall>a. parse_int_suffix_from_filename x = Some a \<and> parse_int_suffix_from_filename y = None
          \<longrightarrow> a < 10 ^ 9 \<or> (a = 10 ^ 9 \<and> x \<le> y)) \<and>
      (parse_int_suffix_from_filename x = None \<and> parse_int_suffix_from_filename y = None
          \<longrightarrow> x \<le> y)"
    if h: "i < j \<and> j < length m \<and> x = sorted_filenames m ! i \<and> y = sorted_filenames m ! j"
  proof -
    from h sorted_filenames_nth[of i j m] have "sort_key_name x \<le> sort_key_name y" by simp
    then show ?thesis
      by (auto simp: sort_key_name_def split: option.splits)
  qed
  have 5: "g \<noteq> [] \<and> (\<forall>c \<in> set g. is_digit c) \<and> ext \<noteq> [] \<and> CHR ''.'' \<notin> set ext \<and>
    (p = [] \<or> \<not> is_digit (last p))
      \<longrightarrow> parse_int_suffix_from_filename (p @ g @ ''.'' @ ext) = Some (int_of_digits g)"
    using parse_hit by blast
  note 6 = parse_None_iff[of s]
  have 7: "sorted_filenames m = [''img_2.jpg'', ''img_10.jpg'', ''cover.jpg'']"
    if h: "distinct (map fst m) \<and> set (map fst m) = {''img_2.jpg'', ''img_10.jpg'', ''cover.jpg''}"
  proof (rule sorted_filenames_unique)
    show "distinct (map fst m)" using h by blast
    show "set (map fst m) = set [''img_2.jpg'', ''img_10.jpg'', ''cover.jpg'']" using h by simp
    show "distinct [''img_2.jpg'', ''img_10.jpg'', ''cover.jpg'']" by simp
    show "sorted (map sort_key_name [''img_2.jpg'', ''img_10.jpg'', ''cover.jpg''])"
      by (simp add: ex_keys)
  qed
  from 1 2 3 4 5 6 7 show ?thesis by blast
qed

theorem sorted_filenames_order_witness:
  "sorted_filenames [(''img_10.jpg'', ''4006381333931'', ''ocr''), (''cover.jpg'', ''12345'', []),
                     (''img_2.jpg'', ''0012'', ''scanner'')]
     = [''img_2.jpg'', ''img_10.jpg'', ''cover.jpg''] \<and>
   parse_int_suffix_from_filename (''img_'' @ ''014'' @ ''.'' @ ''jpg'') = Some 14 \<and>
   ((2::int) < 10 \<or> ((2::int) = 10 \<and> ''img_2.jpg'' \<le> ''img_10.jpg''))"
proof -
  let ?m = "[(''img_10.jpg'', ''4006381333931'', ''ocr''), (''cover.jpg'', ''12345'', []),
             (''img_2.jpg'', ''0012'', ''scanner'')]"
  note inst = sorted_filenames_order[of ?m 0 1 "''img_2.jpg''" "''img_10.jpg''" "''014''" "''jpg''"
      "''img_''"]
  note rest3 = inst[THEN conjunct2, THEN conjunct2, THEN conjunct2]
  note c4 = rest3[THEN conjunct1]
  note c5 = rest3[THEN conjunct2, THEN conjunct1]
  note c7 = rest3[THEN conjunct2, THEN conjunct2, THEN conjunct2]
  have h7: "distinct (map fst ?m) \<and>
            set (map fst ?m) = {''img_2.jpg'', ''img_10.jpg'', ''cover.jpg''}"
    by (simp add: insert_commute)
  have a: "sorted_filenames ?m = [''img_2.jpg'', ''img_10.jpg'', ''cover.jpg'']"
    by (rule c7[THEN mp, OF h7])
  have h5: "''014'' \<noteq> [] \<and> (\<forall>c \<in> set ''014''. is_digit c) \<and> ''jpg'' \<noteq> [] \<and>
            CHR ''.'' \<notin> set ''jpg'' \<and> (''img_'' = [] \<or> \<not> is_digit (last ''img_''))"
    by (simp add: is_digit_def)
  have "parse_int_suffix_from_filename (''img_'' @ ''014'' @ ''.'' @ ''jpg'')
                       = Some (int_of_digits ''014'')"
    by (rule c5[THEN mp, OF h5])
  then have b: "parse_int_suffix_from_filename (''img_'' @ ''014'' @ ''.'' @ ''jpg'') = Some 14"
    by (simp add: int_of_digits_def digit_val_def)
  have h4: "(0::nat) < 1 \<and> 1 < length ?m \<and> ''img_2.jpg'' = sorted_filenames ?m ! 0 \<and>
            ''img_10.jpg'' = sorted_filenames ?m ! 1"
    by (simp add: a)
  have p: "parse_int_suffix_from_filename ''img_2.jpg'' = Some 2 \<and>
           parse_int_suffix_from_filename ''img_10.jpg'' = Some 10"
    by (simp add: parse_int_suffix_from_filename_def match_here_def is_digit_def
          lookahead_ext_def int_of_digits_def digit_val_def)
  note c4a = c4[THEN mp, OF h4, THEN conjunct1, THEN spec, THEN spec, THEN mp, OF p]
  from a b c4a show ?thesis by (intro conjI)
qed

text \<open>
  Claim C1 as stated says that every filename without a number comes after all numbered
  ones. The sentinel is a number like any other: a filename numbered above it is
  processed after a filename without a number.
\<close>

theorem unnumbered_last_counterexample:
  "parse_int_suffix_from_filename ''cover.jpg'' = None \<and>
   parse_int_suffix_from_filename ''img_2000000000.jpg'' = Some 2000000000 \<and>
   sorted_filenames [(''img_2000000000.jpg'', ''4006381333931'', ''ocr''),
                     (''cover.jpg'', ''12345'', [])]
     = [''cover.jpg'', ''img_2000000000.jpg'']"
proof -
  have a: "parse_int_suffix_from_filename ''cover.jpg'' = None"
    by (simp add: parse_int_suffix_from_filename_def match_here_def is_digit_def
          lookahead_ext_def)
  have b: "parse_int_suffix_from_filename ''img_2000000000.jpg'' = Some 2000000000"
    by (simp add: parse_int_suffix_from_filename_def match_here_def is_digit_def
          lookahead_ext_def int_of_digits_def digit_val_def)
  have "sorted_filenames [(''img_2000000000.jpg'', ''4006381333931'', ''ocr''),
                     (''cover.jpg'', ''12345'', [])]
     = [''cover.jpg'', ''img_2000000000.jpg'']"
    by (simp add: sorted_filenames_def sort_key_name_def a b)
  with a b show ?thesis by simp
qed

subsection \<open>A source that is not a string\<close>

text \<open>
  Claim C10. An object with a non-empty filename and a usable barcode whose
  \<^verbatim>\<open>barcode_detection_source\<close> is neither \<^verbatim>\<open>None\<close> nor a string (the number 5, say)
  makes the matching loop raise \<^verbatim>\<open>AttributeError\<close> at \<^verbatim>\<open>.strip()\<close>: no mapping is
  produced, and a row that got as far as the loop is aborted with nothing written.
\<close>

theorem source_not_string_raises:
  assumes "strip fn \<noteq> []" "b \<noteq> ''null''" "strip b \<noteq> []" "\<not> is_all_zeros (strip b)"
    and "src \<noteq> JNull" "\<forall>s. src \<noteq> JStr s"
    and "build_filename_to_meta [] pre = Inr m"
    and "download_bytes env zip_url default_max_retries w = (Inr (Some zip_bytes), w1)"
    and "zip_bytes \<noteq> []" "extract_zip_entries env zip_bytes = Inr zip_entries" "zip_entries \<noteq> []"
  shows "meta_step m (tagged_object fn (JStr b) src) = Inl AttributeError \<and>
         build_filename_to_meta [] (pre @ tagged_object fn (JStr b) src # post) = Inl AttributeError \<and>
         fetch_and_save env zip_url (pre @ tagged_object fn (JStr b) src # post) c out mp w
           = (Inl AttributeError, w1) \<and>
         written w1 = written w \<and> appended w1 = appended w"
proof -
  from assms(1) have "fn \<noteq> []" by (auto simp: strip_def)
  with assms(1-6) have step: "meta_step m (tagged_object fn (JStr b) src) = Inl AttributeError"
    by (cases src) (simp_all add: tagged_object_def meta_step_def dict_get_def py_or_def py_str_def Let_def)
  with assms(7) have build:
    "build_filename_to_meta [] (pre @ tagged_object fn (JStr b) src # post) = Inl AttributeError"
    by (simp add: build_filename_to_meta_append)
  have "fetch_and_save env zip_url (pre @ tagged_object fn (JStr b) src # post) c out mp w
           = (Inl AttributeError, w1)"
    using assms(8-11) build by (simp add: fetch_and_save_def)
  with step build download_bytes_files[OF assms(8)] show ?thesis by simp
qed

theorem source_not_string_raises_witness:
  "fetch_and_save example_env ''http://x/a.zip''
      [tagged_object ''a.jpg'' (JStr ''123'') (JNum 5)] 0 ''out'' ''out/metadata.txt'' world0
     = (Inl AttributeError, world0\<lparr>requests := 1\<rparr>)"
proof -
  have dl: "download_bytes example_env ''http://x/a.zip'' default_max_retries world0
              = (Inr (Some [80, 75]), world0\<lparr>requests := 1\<rparr>)"
    by (simp add: download_bytes_def default_max_retries_def example_env_def world0_def
          upto_rec1 Let_def)
  have ze: "extract_zip_entries example_env [80, 75]
              = Inr [(''img_2.jpg'', [2]), (''img_10.jpg'', [10]), (''cover.jpg'', [7])]"
    by (rule ex_zip) simp
  have h1: "strip ''a.jpg'' \<noteq> []" by (simp add: strip_def is_space_def)
  have h3: "strip ''123'' \<noteq> []" by (simp add: strip_def is_space_def)
  have h4: "\<not> is_all_zeros (strip ''123'')"
    by (simp add: strip_def is_space_def is_all_zeros_def)
  show ?thesis
    using source_not_string_raises[of "''a.jpg''" "''123''" "JNum 5" "[]" "[]" example_env
         "''http://x/a.zip''" world0 "[80, 75]" "world0\<lparr>requests := 1\<rparr>"
         "[(''img_2.jpg'', [2]), (''img_10.jpg'', [10]), (''cover.jpg'', [7])]" "[]" 0
         "''out''" "''out/metadata.txt''"]
      dl ze h1 h3 h4
    by simp
qed

end
